theory Spec2Isabelle
  imports Main "HOL-Library.Word"
begin

unbundle bit_operations_syntax

section \<open>The graph capability and machine arithmetic\<close>

text \<open>
  The solvers of \<^verbatim>\<open>TSPAlgorithms.cpp\<close> read an \<^verbatim>\<open>IGraph\<close> through two calls only:
  \<^verbatim>\<open>getVertexCount()\<close> and \<^verbatim>\<open>getEdgeParameter(i, j)\<close>. The interface is a record of these
  two; the vertex count is a \<open>nat\<close> (a negative count is no graph), an edge weight is the
  value of a C++ \<^verbatim>\<open>int\<close>.
\<close>

record IGraph =
  getVertexCount :: nat
  getEdgeParameter :: "nat \<Rightarrow> nat \<Rightarrow> int"

text \<open>\<^verbatim>\<open>std::numeric_limits<int>::max()\<close> for the 32-bit \<^verbatim>\<open>int\<close>.\<close>

definition INT_MAX :: int where
  "INT_MAX = 2147483647"

text \<open>
  Arithmetic on \<^verbatim>\<open>int\<close> with the two's complement wrap-around written out: the result
  is brought back into \<open>[-2^31, 2^31)\<close>.
\<close>

definition wrap32 :: "int \<Rightarrow> int" where
  "wrap32 x = (x + 2147483648) mod 4294967296 - 2147483648"

definition add32 :: "int \<Rightarrow> int \<Rightarrow> int" where
  "add32 a b = wrap32 (a + b)"

definition sub32 :: "int \<Rightarrow> int \<Rightarrow> int" where
  "sub32 a b = wrap32 (a - b)"

text \<open>
  What a solver returns: a value, or one of the failures of the source. A vector read
  or written outside its size, a shift by at least the width of the operand and the
  dereference of an end iterator have no defined result in C++; each is a branch of
  the model.
\<close>

datatype error = IndexOutOfRange | ShiftOutOfRange | EndIteratorDereferenced

text \<open>
  Modelled from the spec: \<^verbatim>\<open>TSPUtils::calculateTargetFunctionValue\<close>, which is called by the
  solvers and is not part of the sources at hand. The spec (section 3): a tour orders
  the non-origin vertices, its edges are origin to first, consecutive pairs, last to
  origin, and its cost is the sum of these \<open>n\<close> edge weights. \<open>pathEdgesCost\<close> adds the
  weights of the consecutive pairs of a vertex list.
\<close>

fun pathEdgesCost :: "(nat \<Rightarrow> nat \<Rightarrow> int) \<Rightarrow> nat list \<Rightarrow> int" where
  "pathEdgesCost w [] = 0"
| "pathEdgesCost w [x] = 0"
| "pathEdgesCost w (x # y # xs) = add32 (w x y) (pathEdgesCost w (y # xs))"

text \<open>
  Modelled from the spec: the overload of \<^verbatim>\<open>calculateTargetFunctionValue\<close> with a
  permutation size (the call of \<^verbatim>\<open>bruteForce\<close>); the origin is the vertex whose index is
  the permutation size.
\<close>

definition calculateTargetFunctionValue :: "IGraph \<Rightarrow> nat \<Rightarrow> nat list \<Rightarrow> int" where
  "calculateTargetFunctionValue g permutationSize permutation =
     pathEdgesCost (getEdgeParameter g) ([permutationSize] @ permutation @ [permutationSize])"

text \<open>
  Modelled from the spec: the overload of \<^verbatim>\<open>calculateTargetFunctionValue\<close> that takes a
  permutation of all \<open>n\<close> vertices (the call of \<^verbatim>\<open>branchAndBound\<close>): the cycle through
  the vertices in the order given, closed by the edge from the last to the first.
\<close>

definition calculateTargetFunctionValueAll :: "IGraph \<Rightarrow> nat list \<Rightarrow> int" where
  "calculateTargetFunctionValueAll g permutation =
     (case permutation of [] \<Rightarrow> 0
      | x # xs \<Rightarrow> pathEdgesCost (getEdgeParameter g) (permutation @ [x]))"

section \<open>Exhaustive search\<close>

text \<open>
  \<^verbatim>\<open>std::swap(permutation[i], permutation[j])\<close>.
\<close>

definition swap_elems :: "nat \<Rightarrow> nat \<Rightarrow> 'a list \<Rightarrow> 'a list" where
  "swap_elems i j xs = xs[i := xs ! j, j := xs ! i]"

text \<open>
  The \<^verbatim>\<open>do ... while\<close> loop of \<^verbatim>\<open>bruteForce\<close> (lines 28 to 58). One call is one
  execution of the body followed by the test of the loop condition. The state is the
  permutation, the counters, the slot index and the best value so far; \<open>visited\<close> is a
  ghost list of the permutations evaluated, in order. An index outside a vector's size
  ends the run with \<open>IndexOutOfRange\<close>. A run that never leaves the loop is \<open>None\<close>.
\<close>

partial_function (option) bruteForceLoop ::
  "IGraph \<Rightarrow> nat \<Rightarrow> nat list \<Rightarrow> int list \<Rightarrow> nat \<Rightarrow> int \<Rightarrow> nat list list
     \<Rightarrow> (error + int \<times> nat list list) option" where
  "bruteForceLoop g permutationSize permutation stackCounters stackSlotIndex best visited =
     (if \<not> stackSlotIndex < length stackCounters then Some (Inl IndexOutOfRange)
      else if stackCounters ! stackSlotIndex \<le> int stackSlotIndex then
        (let swapIndex = (if (stackSlotIndex + 1) mod 2 = 1 then 0
                          else stackCounters ! stackSlotIndex - 1)
         in if \<not> (stackSlotIndex < length permutation \<and> 0 \<le> swapIndex
                   \<and> swapIndex < int (length permutation))
            then Some (Inl IndexOutOfRange)
            else
              (let permutation' = swap_elems stackSlotIndex (nat swapIndex) permutation;
                   stackCounters' = stackCounters
                     [stackSlotIndex := add32 (stackCounters ! stackSlotIndex) 1];
                   current = calculateTargetFunctionValue g permutationSize permutation';
                   best' = (if current < best then current else best);
                   visited' = visited @ [permutation']
               in if 1 + 1 \<le> permutationSize
                  then bruteForceLoop g permutationSize permutation' stackCounters' 1 best' visited'
                  else Some (Inr (best', visited'))))
      else
        (let stackCounters' = stackCounters[stackSlotIndex := 1];
             stackSlotIndex' = stackSlotIndex + 1
         in if stackSlotIndex' + 1 \<le> permutationSize
            then bruteForceLoop g permutationSize permutation stackCounters' stackSlotIndex' best visited
            else Some (Inr (best, visited))))"

text \<open>
  \<^verbatim>\<open>bruteForce\<close> (lines 3 to 61): the natural permutation of the \<open>n - 1\<close> non-origin
  vertices, the counters all 1, the slot index 1, the natural permutation's cost as the
  first best value, then the loop. \<open>bruteForceRun\<close> keeps the ghost list of visited
  permutations, \<open>bruteForce\<close> returns the value alone.
\<close>

definition bruteForceRun :: "IGraph \<Rightarrow> (error + int \<times> nat list list) option" where
  "bruteForceRun g =
     (let permutationSize = getVertexCount g - 1;
          permutation = [0..<permutationSize];
          stackCounters = replicate permutationSize 1;
          best = calculateTargetFunctionValue g permutationSize permutation
      in bruteForceLoop g permutationSize permutation stackCounters 1 best [permutation])"

definition bruteForce :: "IGraph \<Rightarrow> (error + int) option" where
  "bruteForce g = map_option (map_sum id fst) (bruteForceRun g)"

section \<open>Held-Karp dynamic programming\<close>

text \<open>
  \<^verbatim>\<open>partialPathCosts\<close>, a \<^verbatim>\<open>vector<vector<int>>\<close> indexed by end vertex and by vertex
  set; the set is an \<^verbatim>\<open>unsigned int\<close>, a 32-bit word. The table is a function of the
  two indices. \<open>writes\<close> is a ghost list of the stores made by \<^verbatim>\<open>dpGetPartialPathCost\<close>
  at line 131: the cell, the value it held, and the value stored.
\<close>

record dp_state =
  table :: "nat \<Rightarrow> 32 word \<Rightarrow> int"
  writes :: "((nat \<times> 32 word) \<times> int \<times> int) list"

text \<open>\<^verbatim>\<open>1u << v\<close>, for a shift below the width.\<close>

definition bit_of :: "nat \<Rightarrow> 32 word" where
  "bit_of v = push_bit v 1"

text \<open>
  \<^verbatim>\<open>dpGetPartialPathCost\<close> (lines 104 to 134) and its loop over \<^verbatim>\<open>vertexIdx\<close> (lines 117
  to 129). The loop function takes the subset, the end vertex, the loop counter and the
  best cost so far; both thread the table.
\<close>

function dpGetPartialPathCost :: "IGraph \<Rightarrow> 32 word \<Rightarrow> nat \<Rightarrow> dp_state \<Rightarrow> int \<times> dp_state"
  and dpVertexLoop :: "IGraph \<Rightarrow> 32 word \<Rightarrow> nat \<Rightarrow> nat \<Rightarrow> int \<Rightarrow> dp_state \<Rightarrow> int \<times> dp_state"
where
  "dpGetPartialPathCost g partialPathSet endVertexIdx s =
     (if table s endVertexIdx partialPathSet = - 1 then
        (let partialPathSubset = partialPathSet AND NOT (bit_of endVertexIdx);
             (bestPartialPathCost, s') =
                dpVertexLoop g partialPathSubset endVertexIdx 0 INT_MAX s;
             s'' = s'\<lparr> table := (table s')(endVertexIdx :=
                          (table s' endVertexIdx)(partialPathSet := bestPartialPathCost)),
                      writes := writes s' @ [((endVertexIdx, partialPathSet),
                          table s' endVertexIdx partialPathSet, bestPartialPathCost)] \<rparr>
         in (table s'' endVertexIdx partialPathSet, s''))
      else (table s endVertexIdx partialPathSet, s))"
| "dpVertexLoop g partialPathSubset endVertexIdx vertexIdx bestPartialPathCost s =
     (if vertexIdx < getVertexCount g - 1 then
        (if partialPathSubset AND bit_of vertexIdx = 0
         then dpVertexLoop g partialPathSubset endVertexIdx (vertexIdx + 1) bestPartialPathCost s
         else
           (let (c, s') = dpGetPartialPathCost g partialPathSubset vertexIdx s;
                partialPathCost = add32 c (getEdgeParameter g vertexIdx endVertexIdx);
                best' = (if partialPathCost < bestPartialPathCost then partialPathCost
                         else bestPartialPathCost)
            in dpVertexLoop g partialPathSubset endVertexIdx (vertexIdx + 1) best' s'))
      else (bestPartialPathCost, s))"
  by pat_completeness auto

text \<open>The vertices of a set word, and what the two bit operations of the source do.\<close>

definition vset :: "32 word \<Rightarrow> nat set" where
  "vset S = {i. bit S i}"

lemma bit_bit_of: "bit (bit_of v) i \<longleftrightarrow> i = v \<and> v < 32"
  by (auto simp: bit_of_def bit_simps)

lemma and_bit_of_eq_0_iff: "(S AND bit_of v = 0) \<longleftrightarrow> \<not> bit S v"
proof
  assume "S AND bit_of v = 0"
  then have "\<not> bit (S AND bit_of v) v" by simp
  then show "\<not> bit S v" by (auto simp: bit_and_iff bit_bit_of dest: bit_imp_le_length)
next
  assume "\<not> bit S v"
  then show "S AND bit_of v = 0"
    by (intro bit_eqI) (auto simp: bit_and_iff bit_bit_of)
qed

lemma bit_remove: "bit (S AND NOT (bit_of e)) i \<longleftrightarrow> bit S i \<and> i \<noteq> e"
  by (auto simp: bit_and_iff bit_not_iff bit_bit_of dest: bit_imp_le_length)

lemma finite_vset: "finite (vset S)"
  unfolding vset_def by simp

lemma vset_remove: "vset (S AND NOT (bit_of e)) = vset S - {e}"
  by (auto simp: vset_def bit_remove)

lemma card_vset_remove: "bit S v \<Longrightarrow> card (vset (S AND NOT (bit_of v))) < card (vset S)"
proof -
  assume "bit S v"
  then have "v \<in> vset S" by (simp add: vset_def)
  then show ?thesis
    unfolding vset_remove by (intro card_Diff1_less finite_vset)
qed

text \<open>
  The recursion ends whatever the table holds: a call of the loop is on the set without
  the end vertex, and a call from the loop is for a vertex of its set, which the callee
  removes in turn.
\<close>

termination dpGetPartialPathCost
  by (relation "inv_image (less_than <*lex*> less_than <*lex*> less_than)
     (\<lambda>x. case x of
        Inl (g, S, e, s) \<Rightarrow> (card (vset (S AND NOT (bit_of e))), 1::nat, 0::nat)
      | Inr (g, sub, e, v, b, s) \<Rightarrow> (card (vset sub), 0, getVertexCount g - 1 - v))")
    (auto simp: and_bit_of_eq_0_iff card_vset_remove)

declare dpGetPartialPathCost.simps [simp del]

declare dpVertexLoop.simps [simp del]

text \<open>
  The table after the initialisation loops of lines 79 to 86: the rows of the
  non-origin vertices hold \<open>-1\<close> but for the singleton set of the row's vertex, which
  holds the weight of the edge from the origin; the row of the origin keeps the zeros
  of the vector's construction.
\<close>

definition initialTable :: "IGraph \<Rightarrow> nat \<Rightarrow> 32 word \<Rightarrow> int" where
  "initialTable g vertexIdx pathSet =
     (if vertexIdx < getVertexCount g - 1
      then (if pathSet = bit_of vertexIdx
            then getEdgeParameter g (getVertexCount g - 1) vertexIdx else - 1)
      else 0)"

text \<open>The body of the loop over the end vertices (lines 92 to 100).\<close>

definition hkEndVertexStep :: "IGraph \<Rightarrow> 32 word \<Rightarrow> nat \<Rightarrow> int \<times> dp_state \<Rightarrow> int \<times> dp_state" where
  "hkEndVertexStep g fullPathSet endVertexIdx acc =
     (let (bestPathCost, s) = acc;
          (c, s') = dpGetPartialPathCost g fullPathSet endVertexIdx s;
          pathCost = add32 c (getEdgeParameter g endVertexIdx (getVertexCount g - 1))
      in (if pathCost < bestPathCost then pathCost else bestPathCost, s'))"

text \<open>
  \<^verbatim>\<open>dynamicProgrammingHeldKarp\<close> (lines 63 to 102). \<^verbatim>\<open>1u << (nVertex - 1)\<close> is defined for
  a shift from 0 to 31 only. The run returns the final table with the cost.
\<close>

definition dynamicProgrammingHeldKarpRun :: "IGraph \<Rightarrow> error + int \<times> dp_state" where
  "dynamicProgrammingHeldKarpRun g =
     (let nVertex = getVertexCount g in
      if nVertex = 0 \<or> 32 \<le> nVertex - 1 then Inl ShiftOutOfRange
      else
        (let fullPathSet = bit_of (nVertex - 1) - 1;
             s0 = \<lparr> table = initialTable g, writes = [] \<rparr>
         in Inr (fold (hkEndVertexStep g fullPathSet) [0..<nVertex - 1] (INT_MAX, s0))))"

definition dynamicProgrammingHeldKarp :: "IGraph \<Rightarrow> error + int" where
  "dynamicProgrammingHeldKarp g = map_sum id fst (dynamicProgrammingHeldKarpRun g)"

section \<open>Branch and bound\<close>

text \<open>
  \<^verbatim>\<open>BBNodeData\<close>. Its declaration is in \<^verbatim>\<open>TSPAlgorithms.h\<close>, which is not part of the
  sources at hand; the fields are the ones \<^verbatim>\<open>TSPAlgorithms.cpp\<close> reads and writes.
  \<^verbatim>\<open>EdgeCities\<close> is the pair \<open>(i, j)\<close>, \<^verbatim>\<open>Penalties\<close> the pair \<open>(row, column)\<close>.
\<close>

record BBNodeData =
  distances :: "int list list"
  lowerBound :: int
  edgesOnPath :: int
  highestZeroPenaltiesIndexes :: "nat \<times> nat"
  highestZeroPenalties :: "int \<times> int"

text \<open>
  Modelled from the spec: the constructor \<^verbatim>\<open>BBNodeData(instanceSize, 0)\<close>, declared in the
  missing header. The spec (section 3): a node owns a full \<open>n \<times> n\<close> working matrix, a
  lower bound and a count of the edges fixed so far; the root has fixed no edge, and its
  bound is the sum the reduction accumulates, so both start at 0.
\<close>

definition newBBNodeData :: "nat \<Rightarrow> BBNodeData" where
  "newBBNodeData instanceSize =
     \<lparr> distances = replicate instanceSize (replicate instanceSize 0),
       lowerBound = 0, edgesOnPath = 0,
       highestZeroPenaltiesIndexes = (0, 0), highestZeroPenalties = (0, 0) \<rparr>"

text \<open>\<^verbatim>\<open>m[i][j] = x\<close> on a vector of vectors.\<close>

definition mset2 :: "int list list \<Rightarrow> nat \<Rightarrow> nat \<Rightarrow> int \<Rightarrow> int list list" where
  "mset2 d i j x = d[i := (d ! i)[j := x]]"

text \<open>
  The root construction loops of \<^verbatim>\<open>branchAndBound\<close> (lines 140 to 147). The store of line
  145 is not in an \<^verbatim>\<open>else\<close> branch: it follows the store of line 143 for every cell.
\<close>

definition initDistancesCell :: "IGraph \<Rightarrow> nat \<Rightarrow> nat \<Rightarrow> int list list \<Rightarrow> int list list" where
  "initDistancesCell g i j d =
     (let d1 = (if i = j then mset2 d i j INT_MAX else d)
      in mset2 d1 i j (getEdgeParameter g i j))"

definition initDistances :: "IGraph \<Rightarrow> int list list \<Rightarrow> int list list" where
  "initDistances g d =
     fold (\<lambda>i. fold (initDistancesCell g i) [0..<getVertexCount g]) [0..<getVertexCount g] d"

definition initNode :: "IGraph \<Rightarrow> BBNodeData" where
  "initNode g = (let nd = newBBNodeData (getVertexCount g)
                 in nd\<lparr> distances := initDistances g (distances nd) \<rparr>)"

text \<open>
  A recorded zero of the matrix with its penalties: \<^verbatim>\<open>pair<EdgeCities, Penalties>\<close>.
  \<^verbatim>\<open>Penalties()\<close> is taken as \<open>(0, 0)\<close>; both fields are stored before they are read.
\<close>

type_synonym matrix_zero = "(nat \<times> nat) \<times> (int \<times> int)"

text \<open>\<^verbatim>\<open>*std::min_element\<close> of a non-empty row.\<close>

definition min_element :: "int list \<Rightarrow> int" where
  "min_element xs = fold min (tl xs) (hd xs)"

text \<open>The inner loop of the row reduction (lines 199 to 207).\<close>

definition reduceRowCell :: "nat \<Rightarrow> int \<Rightarrow> nat
    \<Rightarrow> int list list \<times> matrix_zero list \<Rightarrow> int list list \<times> matrix_zero list" where
  "reduceRowCell i rowMinimum j st =
     (let (d, zs) = st in
      if d ! i ! j = INT_MAX then (d, zs)
      else (let d' = mset2 d i j (sub32 (d ! i ! j) rowMinimum)
            in (d', if d' ! i ! j = 0 then zs @ [((i, j), (0, 0))] else zs)))"

text \<open>The body of the loop over the rows (lines 194 to 209).\<close>

definition reduceRow :: "nat \<Rightarrow> int list list \<times> int \<times> matrix_zero list
    \<Rightarrow> int list list \<times> int \<times> matrix_zero list" where
  "reduceRow i st =
     (let (d, lb, zs) = st;
          rowMinimum = min_element (d ! i)
      in if rowMinimum = INT_MAX then (d, lb, zs)
         else (let (d', zs') = fold (reduceRowCell i rowMinimum) [0..<length d] (d, zs)
               in (d', add32 lb rowMinimum, zs')))"

text \<open>The column minimum (lines 213 to 218).\<close>

definition columnMinimum :: "int list list \<Rightarrow> nat \<Rightarrow> int" where
  "columnMinimum d j =
     fold (\<lambda>i m. if d ! i ! j < m then d ! i ! j else m) [1..<length d] (d ! 0 ! j)"

text \<open>The inner loop of the column reduction (lines 222 to 230).\<close>

definition reduceColumnCell :: "nat \<Rightarrow> int \<Rightarrow> nat
    \<Rightarrow> int list list \<times> matrix_zero list \<Rightarrow> int list list \<times> matrix_zero list" where
  "reduceColumnCell j colMinimum i st =
     (let (d, zs) = st in
      if d ! i ! j = INT_MAX then (d, zs)
      else (let d' = mset2 d i j (sub32 (d ! i ! j) colMinimum)
            in (d', if d' ! i ! j = 0 then zs @ [((i, j), (0, 0))] else zs)))"

text \<open>The body of the loop over the columns (lines 212 to 232).\<close>

definition reduceColumn :: "nat \<Rightarrow> int list list \<times> int \<times> matrix_zero list
    \<Rightarrow> int list list \<times> int \<times> matrix_zero list" where
  "reduceColumn j st =
     (let (d, lb, zs) = st;
          colMinimum = columnMinimum d j
      in if colMinimum = INT_MAX \<or> colMinimum = 0 then (d, lb, zs)
         else (let (d', zs') = fold (reduceColumnCell j colMinimum) [0..<length d] (d, zs)
               in (d', add32 lb colMinimum, zs')))"

text \<open>The penalties of one recorded zero (lines 236 to 249).\<close>

definition zeroPenalties :: "int list list \<Rightarrow> matrix_zero \<Rightarrow> matrix_zero" where
  "zeroPenalties d z =
     (let (zi, zj) = fst z;
          rowMinimum = fold (\<lambda>j m. if d ! zi ! j < m \<and> j \<noteq> zj then d ! zi ! j else m)
                            [0..<length d] INT_MAX;
          colMinimum = fold (\<lambda>i m. if d ! i ! zj < m \<and> i \<noteq> zi then d ! i ! zj else m)
                            [0..<length d] INT_MAX
      in ((zi, zj), (rowMinimum, colMinimum)))"

text \<open>
  \<^verbatim>\<open>std::max_element\<close> with the comparator of lines 253 to 257: the first of the largest
  elements, or the end iterator for an empty list.
\<close>

definition penaltyLess :: "matrix_zero \<Rightarrow> matrix_zero \<Rightarrow> bool" where
  "penaltyLess lhs rhs \<longleftrightarrow>
     add32 (fst (snd lhs)) (snd (snd lhs)) < add32 (fst (snd rhs)) (snd (snd rhs))"

definition max_element :: "matrix_zero list \<Rightarrow> matrix_zero option" where
  "max_element zs = (case zs of [] \<Rightarrow> None
     | z # rest \<Rightarrow> Some (fold (\<lambda>x largest. if penaltyLess largest x then x else largest) rest z))"

text \<open>
  The reduction of \<^verbatim>\<open>bbCalculateLowerBoundAndDesignateHighestZeroPenalty\<close> up to the list of
  zeros with their penalties (lines 189 to 250): the matrix, the bound and the list. The
  loops index every row up to \<^verbatim>\<open>distances.size()\<close>, the number of rows, whatever the
  length of the row: a row shorter than the number of rows is read outside its range, a
  longer one is not.
\<close>

definition rowsReachSize :: "int list list \<Rightarrow> bool" where
  "rowsReachSize d \<longleftrightarrow> (\<forall>row \<in> set d. length d \<le> length row)"

definition bbReduce :: "BBNodeData \<Rightarrow> int list list \<times> int \<times> matrix_zero list" where
  "bbReduce nodeData =
     (let size = length (distances nodeData);
          st1 = fold reduceRow [0..<size] (distances nodeData, lowerBound nodeData, []);
          (d, lb, zs) = fold reduceColumn [0..<size] st1
      in (d, lb, map (zeroPenalties d) zs))"

text \<open>
  \<^verbatim>\<open>bbCalculateLowerBoundAndDesignateHighestZeroPenalty\<close> (lines 189 to 260). The iterator
  that \<^verbatim>\<open>max_element\<close> returns is dereferenced unchecked.
\<close>

definition bbCalculateLowerBoundAndDesignateHighestZeroPenalty :: "BBNodeData \<Rightarrow> error + BBNodeData" where
  "bbCalculateLowerBoundAndDesignateHighestZeroPenalty nodeData =
     (if \<not> rowsReachSize (distances nodeData) then Inl IndexOutOfRange
      else (let (d, lb, matrixZeroes) = bbReduce nodeData
            in case max_element matrixZeroes of
                 None \<Rightarrow> Inl EndIteratorDereferenced
               | Some highestPenaltyZeroData \<Rightarrow>
                   Inr (nodeData\<lparr> distances := d, lowerBound := lb,
                          highestZeroPenaltiesIndexes := fst highestPenaltyZeroData,
                          highestZeroPenalties := snd highestPenaltyZeroData \<rparr>)))"

text \<open>The three functions whose bodies are empty or constant in the source (lines 262 to 272).\<close>

definition bbCreateLeftNodeData :: "BBNodeData \<Rightarrow> BBNodeData" where
  "bbCreateLeftNodeData nodeData = nodeData"

definition bbCreateRightNodeData :: "BBNodeData \<Rightarrow> BBNodeData" where
  "bbCreateRightNodeData nodeData = nodeData"

definition bbGetCycleCost :: "BBNodeData \<Rightarrow> int" where
  "bbGetCycleCost nodeData = 0"

text \<open>
  The priority queue \<^verbatim>\<open>leafs\<close> with \<^verbatim>\<open>bbNodeComparator\<close> (lines 149 to 156). The queue is
  the list of its elements; \<^verbatim>\<open>top\<close> is a largest element for the comparator, that is a
  node of least lower bound and, among these, of most edges on the path. Which of several
  such nodes a binary heap yields is the library's choice; the model takes the first.
\<close>

definition bbNodeComparator :: "BBNodeData \<Rightarrow> BBNodeData \<Rightarrow> bool" where
  "bbNodeComparator lhs rhs =
     (if lowerBound lhs = lowerBound rhs then edgesOnPath lhs < edgesOnPath rhs
      else lowerBound lhs > lowerBound rhs)"

definition pq_top :: "BBNodeData list \<Rightarrow> BBNodeData option" where
  "pq_top leafs = (case leafs of [] \<Rightarrow> None
     | x # xs \<Rightarrow> Some (fold (\<lambda>y largest. if bbNodeComparator largest y then y else largest) xs x))"

definition pq_pop :: "BBNodeData list \<Rightarrow> BBNodeData list" where
  "pq_pop leafs = (case pq_top leafs of None \<Rightarrow> leafs | Some t \<Rightarrow> remove1 t leafs)"

definition pq_push :: "BBNodeData \<Rightarrow> BBNodeData list \<Rightarrow> BBNodeData list" where
  "pq_push nd leafs = leafs @ [nd]"

text \<open>
  The body of the \<^verbatim>\<open>while\<close> loop of \<^verbatim>\<open>branchAndBound\<close> (lines 168 to 184), for the queue,
  its top node and the upper bound.
\<close>

definition bbIteration :: "nat \<Rightarrow> BBNodeData list \<Rightarrow> BBNodeData \<Rightarrow> int \<Rightarrow> BBNodeData list \<times> int" where
  "bbIteration instanceSize leafs topNode upperBound =
     (let leafs1 = pq_pop leafs;
          leftNode = bbCreateLeftNodeData topNode;
          leafs2 = (if lowerBound leftNode < upperBound then pq_push leftNode leafs1 else leafs1);
          rightNode = bbCreateRightNodeData topNode;
          leafs3 = (if lowerBound rightNode < upperBound then pq_push rightNode leafs2 else leafs2);
          upperBound' = (if edgesOnPath rightNode = int instanceSize - 2
                         then bbGetCycleCost rightNode else upperBound)
      in (leafs3, upperBound'))"

text \<open>
  The loop (lines 167 to 186). \<^verbatim>\<open>top\<close> of an empty queue reads the front of an empty
  vector. A run that never leaves the loop is \<open>None\<close>.
\<close>

partial_function (option) bbLoop :: "nat \<Rightarrow> BBNodeData list \<Rightarrow> int \<Rightarrow> (error + int) option" where
  "bbLoop instanceSize leafs upperBound =
     (case pq_top leafs of
        None \<Rightarrow> Some (Inl IndexOutOfRange)
      | Some topNode \<Rightarrow>
          if lowerBound topNode < upperBound
          then (case bbIteration instanceSize leafs topNode upperBound of
                  (leafs', upperBound') \<Rightarrow> bbLoop instanceSize leafs' upperBound')
          else Some (Inr upperBound))"

text \<open>The upper bound the search starts from (lines 158 to 162).\<close>

definition initialUpperBound :: "IGraph \<Rightarrow> int" where
  "initialUpperBound g = calculateTargetFunctionValueAll g [0..<getVertexCount g]"

text \<open>\<^verbatim>\<open>branchAndBound\<close> (lines 136 to 187).\<close>

definition branchAndBound :: "IGraph \<Rightarrow> (error + int) option" where
  "branchAndBound g =
     (case bbCalculateLowerBoundAndDesignateHighestZeroPenalty (initNode g) of
        Inl e \<Rightarrow> Some (Inl e)
      | Inr root \<Rightarrow> bbLoop (getVertexCount g) [root] (initialUpperBound g))"

text \<open>
  The states of the loop, one per test of its condition: \<open>bbNext\<close> is one pass through
  the body when the condition holds, \<open>bbStates\<close> the state after a number of passes.
\<close>

definition bbNext :: "nat \<Rightarrow> BBNodeData list \<times> int \<Rightarrow> (BBNodeData list \<times> int) option" where
  "bbNext instanceSize st =
     (case pq_top (fst st) of
        None \<Rightarrow> None
      | Some topNode \<Rightarrow> if lowerBound topNode < snd st
                    then Some (bbIteration instanceSize (fst st) topNode (snd st)) else None)"


section \<open>Tours, the optimum and the recurrence of the spec\<close>

text \<open>
  The cost of a walk in exact arithmetic: the sum of the weights of its consecutive
  pairs of vertices.
\<close>

fun path_cost :: "(nat \<Rightarrow> nat \<Rightarrow> int) \<Rightarrow> nat list \<Rightarrow> int" where
  "path_cost w [] = 0"
| "path_cost w [x] = 0"
| "path_cost w (x # y # xs) = w x y + path_cost w (y # xs)"

text \<open>
  A tour is an ordering of the non-origin vertices \<open>0, ..., n - 2\<close>; the cycle it stands
  for leaves the origin \<open>n - 1\<close>, visits them in order and returns. \<open>min_tour_cost\<close> is the
  least cost of a Hamiltonian cycle.
\<close>

definition tours :: "IGraph \<Rightarrow> nat list set" where
  "tours g = {p. distinct p \<and> set p = {0..<getVertexCount g - 1}}"

definition tour_cost :: "IGraph \<Rightarrow> nat list \<Rightarrow> int" where
  "tour_cost g p = path_cost (getEdgeParameter g) ([getVertexCount g - 1] @ p @ [getVertexCount g - 1])"

definition min_tour_cost :: "IGraph \<Rightarrow> int" where
  "min_tour_cost g = Min (tour_cost g ` tours g)"

text \<open>
  The recurrence as the spec words it (section 4.2), on sets of vertices:
  \<open>dp[j][{j}] = w(origin, j)\<close> and, for \<open>j\<close> in \<open>S\<close>,
  \<open>dp[j][S] = min over k in S - {j} of dp[k][S - {j}] + w(k, j)\<close>. It is compared below
  with what the memoised recursion of the source computes.
\<close>

function held_karp_dp :: "IGraph \<Rightarrow> nat \<Rightarrow> nat set \<Rightarrow> int" where
  "held_karp_dp g j S =
     (if finite S \<and> j \<in> S \<and> S \<noteq> {j}
      then Min ((\<lambda>k. held_karp_dp g k (S - {j}) + getEdgeParameter g k j) ` (S - {j}))
      else getEdgeParameter g (getVertexCount g - 1) j)"
  by pat_completeness auto

termination
proof (relation "measure (\<lambda>(g, j, S). card S)", goal_cases)
  case 1
  show ?case by simp
next
  case (2 g j S x)
  then have "card (S - {j}) < card S" by (intro card_Diff1_less) auto
  then show ?case by simp
qed

declare held_karp_dp.simps [simp del]

text \<open>
  The answer of the spec: \<open>min over j of dp[j][Full] + w(j, origin)\<close>, with
  \<open>Full = {0, ..., n - 2}\<close>.
\<close>

definition held_karp_answer :: "IGraph \<Rightarrow> int" where
  "held_karp_answer g =
     Min ((\<lambda>j. held_karp_dp g j {0..<getVertexCount g - 1}
               + getEdgeParameter g j (getVertexCount g - 1)) ` {0..<getVertexCount g - 1})"

text \<open>
  A well-formed graph (spec, sections 3 and 7): at least two vertices, off-diagonal
  weights that are not negative, and the arithmetic precondition that \<open>n\<close> times a
  weight fits an \<^verbatim>\<open>int\<close>, so that no sum of \<open>n\<close> weights overflows. Nothing is asked of
  the diagonal.
\<close>

definition well_formed :: "IGraph \<Rightarrow> bool" where
  "well_formed g \<longleftrightarrow>
     2 \<le> getVertexCount g \<and>
     (\<forall>i<getVertexCount g. \<forall>j<getVertexCount g. i \<noteq> j \<longrightarrow>
        0 \<le> getEdgeParameter g i j \<and> int (getVertexCount g) * getEdgeParameter g i j \<le> INT_MAX)"

text \<open>
  The same precondition for what the graph returns on the diagonal, which the spec
  leaves open and the root construction of \<open>branchAndBound\<close> reads: a value within
  the range of the weights in absolute size, or any value up to \<open>INT_MAX\<close>.
\<close>

definition diagonal_in_range :: "IGraph \<Rightarrow> bool" where
  "diagonal_in_range g \<longleftrightarrow>
     (\<forall>i<getVertexCount g. - INT_MAX \<le> int (getVertexCount g) * getEdgeParameter g i i
                           \<and> getEdgeParameter g i i \<le> INT_MAX)"

text \<open>
  The cost of the best cycle whose last non-origin vertex is \<open>j\<close>.
\<close>

definition tour_through :: "IGraph \<Rightarrow> nat \<Rightarrow> int" where
  "tour_through g j = held_karp_dp g j {0..<getVertexCount g - 1}
                        + getEdgeParameter g j (getVertexCount g - 1)"

section \<open>Invariants of the memo table\<close>

text \<open>
  The table is sound for the graph: a cell of an end vertex and a set that holds the
  vertex is \<open>-1\<close> or the value of the recurrence, and the cells of the singleton sets are
  cached.
\<close>

definition table_ok :: "IGraph \<Rightarrow> (nat \<Rightarrow> 32 word \<Rightarrow> int) \<Rightarrow> bool" where
  "table_ok g T \<longleftrightarrow>
     (\<forall>v S. v < getVertexCount g - 1 \<longrightarrow> bit S v \<longrightarrow> vset S \<subseteq> {0..<getVertexCount g - 1} \<longrightarrow>
        (T v S = - 1 \<and> S \<noteq> bit_of v) \<or> T v S = held_karp_dp g v (vset S))"

text \<open>
  The ghost log is consistent with the table: every store found \<open>-1\<close>, stored another
  value, which the table still holds, and no cell was stored twice.
\<close>

definition log_ok :: "dp_state \<Rightarrow> bool" where
  "log_ok s \<longleftrightarrow>
     (\<forall>x \<in> set (writes s). fst (snd x) = - 1 \<and> snd (snd x) \<noteq> - 1
         \<and> table s (fst (fst x)) (snd (fst x)) = snd (snd x))
     \<and> distinct (map fst (writes s))"

text \<open>
  Every cached cell of the first state has the same value in the second.
\<close>

definition cache_kept :: "dp_state \<Rightarrow> dp_state \<Rightarrow> bool" where
  "cache_kept s s' \<longleftrightarrow> (\<forall>v S. table s v S \<noteq> - 1 \<longrightarrow> table s' v S = table s v S)"

text \<open>
  The two states differ only in cells whose set is within the given set.
\<close>

definition only_within :: "32 word \<Rightarrow> dp_state \<Rightarrow> dp_state \<Rightarrow> bool" where
  "only_within S s s' \<longleftrightarrow> (\<forall>v S'. \<not> vset S' \<subseteq> vset S \<longrightarrow> table s' v S' = table s v S')"

text \<open>
  The vertex set of a call, for the two kinds of calls of the recursion:
  \<open>Inl\<close> for \<open>dpGetPartialPathCost\<close>, \<open>Inr\<close> for its loop.
\<close>

definition call_set ::
  "IGraph \<times> 32 word \<times> nat \<times> dp_state + IGraph \<times> 32 word \<times> nat \<times> nat \<times> int \<times> dp_state \<Rightarrow> nat set" where
  "call_set x = (case x of Inl (g, S, e, s) \<Rightarrow> vset S | Inr (g, sub, e, v, b, s) \<Rightarrow> vset sub)"

section \<open>The reductions, row by row and column by column\<close>

text \<open>What the reductions do to one cell.\<close>

definition reduced :: "int \<Rightarrow> int \<Rightarrow> int" where
  "reduced m x = (if x = INT_MAX then x else sub32 x m)"

text \<open>One row of the row reduction, and what it adds to the bound and to the list.\<close>

definition reduceRowOf :: "int list \<Rightarrow> int list" where
  "reduceRowOf row = (if min_element row = INT_MAX then row
                      else map (reduced (min_element row)) row)"

definition rowBound :: "int list \<Rightarrow> int" where
  "rowBound row = (if min_element row = INT_MAX then 0 else min_element row)"

definition rowZeroes :: "nat \<Rightarrow> int list \<Rightarrow> matrix_zero list" where
  "rowZeroes i row = (if min_element row = INT_MAX then []
     else map (\<lambda>j. ((i, j), (0, 0)))
            (filter (\<lambda>j. row ! j \<noteq> INT_MAX \<and> sub32 (row ! j) (min_element row) = 0)
                    [0..<length row]))"

text \<open>
  One column of the column reduction.
\<close>

definition skipColumn :: "int list list \<Rightarrow> nat \<Rightarrow> bool" where
  "skipColumn d j \<longleftrightarrow> columnMinimum d j = INT_MAX \<or> columnMinimum d j = 0"

definition columnBound :: "int list list \<Rightarrow> nat \<Rightarrow> int" where
  "columnBound d j = (if skipColumn d j then 0 else columnMinimum d j)"

text \<open>
  Two matrices of the same shape that agree from a column on.
\<close>

definition same_from :: "nat \<Rightarrow> int list list \<Rightarrow> int list list \<Rightarrow> bool" where
  "same_from k d d' \<longleftrightarrow> length d' = length d
     \<and> (\<forall>i<length d. length (d' ! i) = length (d ! i)
           \<and> (\<forall>j. k \<le> j \<longrightarrow> d' ! i ! j = d ! i ! j))"

text \<open>The weight matrix as the graph returns it, diagonal included.\<close>

definition weightMatrix :: "IGraph \<Rightarrow> int list list" where
  "weightMatrix g = map (\<lambda>i. map (getEdgeParameter g i) [0..<getVertexCount g]) [0..<getVertexCount g]"

text \<open>
  A square matrix, as the root matrix is: every row has as many cells as there are rows.
\<close>

definition is_square :: "int list list \<Rightarrow> bool" where
  "is_square d \<longleftrightarrow> (\<forall>row \<in> set d. length row = length d)"

section \<open>Example graphs\<close>

text \<open>
  Two vertices with \<open>w(0,1) = 3\<close> and \<open>w(1,0) = 4\<close>; the diagonal reads 0.
\<close>

definition example_graph_2 :: IGraph where
  "example_graph_2 =
     \<lparr> getVertexCount = 2,
       getEdgeParameter = (\<lambda>i j. if i = j then 0 else if i = 0 then 3 else 4) \<rparr>"

text \<open>
  The four-vertex scenario of the spec (section 8); the diagonal reads 0.
\<close>

definition example_graph_4 :: IGraph where
  "example_graph_4 =
     \<lparr> getVertexCount = 4,
       getEdgeParameter = (\<lambda>i j. [[0, 10, 15, 20], [10, 0, 35, 25], [15, 35, 0, 30], [20, 25, 30, 0]] ! i ! j) \<rparr>"

text \<open>
  Three vertices, every weight 1; the diagonal reads \<open>- 2 ^ 30\<close>.
\<close>

definition example_graph_3 :: IGraph where
  "example_graph_3 =
     \<lparr> getVertexCount = 3,
       getEdgeParameter = (\<lambda>i j. if i = j then - 1073741824 else 1) \<rparr>"

text \<open>
  The same three vertices and weights; the diagonal reads \<open>INT_MAX\<close>.
\<close>

definition example_graph_3_inf :: IGraph where
  "example_graph_3_inf =
     \<lparr> getVertexCount = 3,
       getEdgeParameter = (\<lambda>i j. if i = j then INT_MAX else 1) \<rparr>"

text \<open>
  Thirty-three vertices, every weight 1.
\<close>

definition example_graph_33 :: IGraph where
  "example_graph_33 = \<lparr> getVertexCount = 33, getEdgeParameter = (\<lambda>i j. 1) \<rparr>"

text \<open>
  The root node of \<open>example_graph_2\<close> after its reduction.
\<close>

definition example_root_2 :: BBNodeData where
  "example_root_2 =
     \<lparr> distances = [[0, 3], [4, 0]], lowerBound = 0, edgesOnPath = 0,
       highestZeroPenaltiesIndexes = (0, 0), highestZeroPenalties = (3, 4) \<rparr>"

text \<open>
  The table of \<open>example_graph_4\<close> before the search.
\<close>

definition example_state_4 :: dp_state where
  "example_state_4 = \<lparr> table = initialTable example_graph_4, writes = [] \<rparr>"

text \<open>
  The two loops are evaluated by their recursion equations.
\<close>

declare bruteForceLoop.simps [code]

declare bbLoop.simps [code]

section \<open>Held-Karp: the recurrence gives the optimum\<close>

lemma path_cost_snoc:
  "xs \<noteq> [] \<Longrightarrow> path_cost w (xs @ [y]) = path_cost w xs + w (last xs) y"
  by (induction w xs rule: path_cost.induct) auto

lemma distinct_set_singleton: "distinct p \<Longrightarrow> set p = {j} \<Longrightarrow> p = [j]"
  by (cases p) (auto simp: insert_eq_iff dest: subset_singletonD)

lemma held_karp_dp_lower:
  "finite S \<Longrightarrow> distinct p \<Longrightarrow> set p = S \<Longrightarrow> p \<noteq> [] \<Longrightarrow> last p = j
   \<Longrightarrow> held_karp_dp g j S \<le> path_cost (getEdgeParameter g) ((getVertexCount g - 1) # p)"
proof (induction g j S arbitrary: p rule: held_karp_dp.induct)
  case (1 g j S)
  let ?w = "getEdgeParameter g" and ?o = "getVertexCount g - 1"
  from "1.prems" have jS: "j \<in> S" by (metis last_in_set)
  show ?case
  proof (cases "S = {j}")
    case True
    with "1.prems" have "p = [j]" by (simp add: distinct_set_singleton)
    with True show ?thesis by (simp add: held_karp_dp.simps)
  next
    case False
    define q where "q = butlast p"
    have p: "p = q @ [j]"
      using append_butlast_last_id[of p] "1.prems"(4,5) by (simp add: q_def)
    have dq: "distinct q" and sq: "set q = S - {j}"
      using "1.prems"(2,3) unfolding p by auto
    have "S - {j} \<noteq> {}" using False jS by blast
    then have qne: "q \<noteq> []" using sq by force
    then have kS: "last q \<in> S - {j}" using sq last_in_set by blast
    have fin: "finite (S - {j})" using "1.prems"(1) by simp
    have c: "finite S \<and> j \<in> S \<and> S \<noteq> {j}" using "1.prems"(1) jS False by simp
    have ih: "held_karp_dp g (last q) (S - {j}) \<le> path_cost ?w (?o # q)"
      by (rule "1.IH"[OF c kS fin dq sq qne refl])
    have "held_karp_dp g j S
            = Min ((\<lambda>k. held_karp_dp g k (S - {j}) + ?w k j) ` (S - {j}))"
      using "1.prems"(1) jS False by (subst held_karp_dp.simps) simp
    also have "\<dots> \<le> held_karp_dp g (last q) (S - {j}) + ?w (last q) j"
      using fin kS by (intro Min_le) auto
    also have "\<dots> \<le> path_cost ?w (?o # q) + ?w (last q) j" using ih by simp
    also have "\<dots> = path_cost ?w ((?o # q) @ [j])"
      using qne by (subst path_cost_snoc) simp_all
    finally show ?thesis by (simp add: p)
  qed
qed

lemma held_karp_dp_attained:
  "finite S \<Longrightarrow> j \<in> S \<Longrightarrow>
   \<exists>p. distinct p \<and> set p = S \<and> p \<noteq> [] \<and> last p = j
     \<and> held_karp_dp g j S = path_cost (getEdgeParameter g) ((getVertexCount g - 1) # p)"
proof (induction g j S rule: held_karp_dp.induct)
  case (1 g j S)
  let ?w = "getEdgeParameter g" and ?o = "getVertexCount g - 1"
  show ?case
  proof (cases "S = {j}")
    case True
    then have "distinct [j] \<and> set [j] = S \<and> [j] \<noteq> [] \<and> last [j] = j
       \<and> held_karp_dp g j S = path_cost ?w (?o # [j])"
      by (simp add: held_karp_dp.simps)
    then show ?thesis by blast
  next
    case False
    have fin: "finite (S - {j})" using "1.prems" by simp
    have ne: "S - {j} \<noteq> {}" using False "1.prems" by auto
    have eq: "held_karp_dp g j S
            = Min ((\<lambda>k. held_karp_dp g k (S - {j}) + ?w k j) ` (S - {j}))"
      using "1.prems" False by (subst held_karp_dp.simps) simp
    have "Min ((\<lambda>k. held_karp_dp g k (S - {j}) + ?w k j) ` (S - {j}))
            \<in> (\<lambda>k. held_karp_dp g k (S - {j}) + ?w k j) ` (S - {j})"
      using fin ne by (intro Min_in) auto
    then obtain k where kS: "k \<in> S - {j}"
      and keq: "held_karp_dp g j S = held_karp_dp g k (S - {j}) + ?w k j"
      unfolding eq by auto
    have c: "finite S \<and> j \<in> S \<and> S \<noteq> {j}" using "1.prems" False by simp
    from "1.IH"[OF c kS fin kS]
    obtain q where q: "distinct q" "set q = S - {j}" "q \<noteq> []" "last q = k"
      "held_karp_dp g k (S - {j}) = path_cost ?w (?o # q)"
      by blast
    have "path_cost ?w (?o # (q @ [j])) = path_cost ?w (?o # q) + ?w k j"
      using path_cost_snoc[of "?o # q" ?w j] q(3,4) by simp
    moreover have "set (q @ [j]) = S" using q(2) "1.prems"(2) by auto
    moreover have "distinct (q @ [j])" using q(1,2) by simp
    ultimately have "distinct (q @ [j]) \<and> set (q @ [j]) = S \<and> q @ [j] \<noteq> [] \<and> last (q @ [j]) = j
       \<and> held_karp_dp g j S = path_cost ?w (?o # (q @ [j]))"
      using q(5) keq by simp
    then show ?thesis by blast
  qed
qed

lemma finite_tours: "finite (tours g)"
proof -
  have "tours g \<subseteq> {xs. set xs \<subseteq> {0..<getVertexCount g - 1} \<and> distinct xs}"
    by (auto simp: tours_def)
  then show ?thesis
    by (rule finite_subset) (intro finite_subset_distinct, simp)
qed

lemma tour_nonempty: "2 \<le> getVertexCount g \<Longrightarrow> p \<in> tours g \<Longrightarrow> p \<noteq> []"
  by (auto simp: tours_def)

lemma tour_cost_split:
  "p \<noteq> [] \<Longrightarrow> tour_cost g p =
     path_cost (getEdgeParameter g) ((getVertexCount g - 1) # p)
       + getEdgeParameter g (last p) (getVertexCount g - 1)"
  using path_cost_snoc[of "(getVertexCount g - 1) # p" "getEdgeParameter g" "getVertexCount g - 1"]
  by (simp add: tour_cost_def)

lemma held_karp_answer_le:
  assumes n: "2 \<le> getVertexCount g" and p: "p \<in> tours g"
  shows "held_karp_answer g \<le> tour_cost g p"
proof -
  let ?F = "{0..<getVertexCount g - 1}" and ?o = "getVertexCount g - 1"
  have pne: "p \<noteq> []" using n p by (rule tour_nonempty)
  have dp: "distinct p" and sp: "set p = ?F" using p by (simp_all add: tours_def)
  have lF: "last p \<in> ?F" using pne sp last_in_set by blast
  have "held_karp_answer g \<le> held_karp_dp g (last p) ?F + getEdgeParameter g (last p) ?o"
    unfolding held_karp_answer_def using lF by (intro Min_le) auto
  also have "\<dots> \<le> path_cost (getEdgeParameter g) (?o # p) + getEdgeParameter g (last p) ?o"
    using held_karp_dp_lower[OF _ dp sp pne refl, of g] by simp
  finally show ?thesis by (simp add: tour_cost_split[OF pne])
qed

lemma held_karp_answer_attained:
  assumes n: "2 \<le> getVertexCount g"
  shows "held_karp_answer g \<in> tour_cost g ` tours g"
proof -
  let ?F = "{0..<getVertexCount g - 1}" and ?o = "getVertexCount g - 1"
  let ?f = "\<lambda>j. held_karp_dp g j ?F + getEdgeParameter g j ?o"
  have "?F \<noteq> {}" using n by simp
  then have "Min (?f ` ?F) \<in> ?f ` ?F" by (intro Min_in) auto
  then obtain j where j: "j \<in> ?F" and eq: "held_karp_answer g = ?f j"
    unfolding held_karp_answer_def by blast
  from held_karp_dp_attained[OF _ j, of g]
  obtain p where p: "distinct p" "set p = ?F" "p \<noteq> []" "last p = j"
    "held_karp_dp g j ?F = path_cost (getEdgeParameter g) (?o # p)"
    by auto
  have "p \<in> tours g" using p(1,2) by (simp add: tours_def)
  moreover have "tour_cost g p = held_karp_answer g"
    using tour_cost_split[OF p(3), of g] p(4,5) eq by simp
  ultimately show ?thesis by force
qed

lemma held_karp_answer_is_min:
  "2 \<le> getVertexCount g \<Longrightarrow> held_karp_answer g = min_tour_cost g"
  unfolding min_tour_cost_def
  by (rule Min_eqI[symmetric])
     (auto simp: finite_tours held_karp_answer_le held_karp_answer_attained)

section \<open>No overflow on a well-formed graph\<close>

lemma add32_eq: "- 2147483648 \<le> a + b \<Longrightarrow> a + b \<le> INT_MAX \<Longrightarrow> add32 a b = a + b"
  by (simp add: add32_def wrap32_def INT_MAX_def mod_pos_pos_trivial)

lemma sub32_eq: "- 2147483648 \<le> a - b \<Longrightarrow> a - b \<le> INT_MAX \<Longrightarrow> sub32 a b = a - b"
  by (simp add: sub32_def wrap32_def INT_MAX_def mod_pos_pos_trivial)

lemma path_cost_bounds:
  assumes wf: "well_formed g"
  shows "distinct_adj xs \<Longrightarrow> set xs \<subseteq> {..<getVertexCount g}
    \<Longrightarrow> 0 \<le> path_cost (getEdgeParameter g) xs
      \<and> int (getVertexCount g) * path_cost (getEdgeParameter g) xs \<le> int (length xs - 1) * INT_MAX"
proof (induction "getEdgeParameter g" xs rule: path_cost.induct)
  case 1
  then show ?case by simp
next
  case (2 x)
  then show ?case by simp
next
  case (3 x y xs)
  let ?w = "getEdgeParameter g" and ?n = "int (getVertexCount g)"
  from "3.prems" have xy: "x \<noteq> y" "x < getVertexCount g" "y < getVertexCount g"
    and da: "distinct_adj (y # xs)" and ss: "set (y # xs) \<subseteq> {..<getVertexCount g}"
    by auto
  from wf xy have w: "0 \<le> ?w x y" "?n * ?w x y \<le> INT_MAX"
    by (auto simp: well_formed_def)
  from "3.hyps"[OF da ss] have ih: "0 \<le> path_cost ?w (y # xs)"
    "?n * path_cost ?w (y # xs) \<le> int (length (y # xs) - 1) * INT_MAX" by auto
  have "?n * path_cost ?w (x # y # xs) = ?n * ?w x y + ?n * path_cost ?w (y # xs)"
    by (simp add: distrib_left)
  also have "\<dots> \<le> INT_MAX + int (length (y # xs) - 1) * INT_MAX"
    using w(2) ih(2) by linarith
  also have "\<dots> = int (length (x # y # xs) - 1) * INT_MAX"
    by (simp add: distrib_right)
  finally show ?case using w(1) ih(1) by simp
qed

lemma path_cost_le_INT_MAX:
  assumes wf: "well_formed g" and da: "distinct_adj xs"
    and ss: "set xs \<subseteq> {..<getVertexCount g}" and len: "length xs \<le> getVertexCount g + 1"
  shows "path_cost (getEdgeParameter g) xs \<le> INT_MAX"
proof -
  let ?n = "int (getVertexCount g)"
  have npos: "0 < ?n" using wf by (simp add: well_formed_def)
  have "?n * path_cost (getEdgeParameter g) xs \<le> int (length xs - 1) * INT_MAX"
    using path_cost_bounds[OF wf da ss] by simp
  also have "\<dots> \<le> ?n * INT_MAX"
    using len by (intro mult_right_mono) (auto simp: INT_MAX_def)
  finally show ?thesis using npos by simp
qed


section \<open>Held-Karp: the memoised recursion computes the recurrence\<close>

lemma distinct_imp_distinct_adj: "distinct xs \<Longrightarrow> distinct_adj xs"
  by (induction xs rule: induct_list012) auto

lemma vset_bit_of: "v < 32 \<Longrightarrow> vset (bit_of v) = {v}"
  by (auto simp: vset_def bit_bit_of)

lemma vset_inj: "vset S = vset T \<Longrightarrow> S = T"
  by (rule bit_eqI) (auto simp: vset_def set_eq_iff)

lemma vset_singleton_iff: "bit S v \<Longrightarrow> vset S = {v} \<longleftrightarrow> S = bit_of v"
proof
  assume b: "bit S v" and "vset S = {v}"
  moreover from b have "v < 32" by (auto dest: bit_imp_le_length)
  ultimately show "S = bit_of v" by (intro vset_inj) (simp add: vset_bit_of)
next
  assume b: "bit S v" and "S = bit_of v"
  moreover from b have "v < 32" by (auto dest: bit_imp_le_length)
  ultimately show "vset S = {v}" by (simp add: vset_bit_of)
qed

lemma held_karp_dp_bounds:
  assumes wf: "well_formed g" and S: "S \<subseteq> {0..<getVertexCount g - 1}" and j: "j \<in> S"
  shows "0 \<le> held_karp_dp g j S"
    and "e < getVertexCount g \<Longrightarrow> e \<noteq> j \<Longrightarrow>
         0 \<le> held_karp_dp g j S + getEdgeParameter g j e
         \<and> held_karp_dp g j S + getEdgeParameter g j e \<le> INT_MAX"
proof -
  let ?w = "getEdgeParameter g" and ?o = "getVertexCount g - 1" and ?n = "getVertexCount g"
  have fin: "finite S" using S by (rule finite_subset) simp
  from held_karp_dp_attained[OF fin j, of g]
  obtain p where p: "distinct p" "set p = S" "p \<noteq> []" "last p = j"
    "held_karp_dp g j S = path_cost ?w (?o # p)"
    by auto
  have n2: "2 \<le> ?n" using wf by (simp add: well_formed_def)
  have d: "distinct (?o # p)" using p(1,2) S by auto
  have ss: "set (?o # p) \<subseteq> {..<?n}" using p(2) S n2 by auto
  have len: "length p \<le> ?n - 1"
    using distinct_card[OF p(1)] p(2) card_mono[OF _ S] by simp
  show "0 \<le> held_karp_dp g j S"
    using path_cost_bounds[OF wf distinct_imp_distinct_adj[OF d] ss] p(5) by simp
  assume e: "e < ?n" "e \<noteq> j"
  have da: "distinct_adj ((?o # p) @ [e])"
    unfolding distinct_adj_append_iff
    using distinct_imp_distinct_adj[OF d] p(3,4) e(2) by simp
  have ss': "set ((?o # p) @ [e]) \<subseteq> {..<?n}" using ss e(1) by simp
  have len': "length ((?o # p) @ [e]) \<le> ?n + 1" using len n2 by simp
  have eq: "path_cost ?w ((?o # p) @ [e]) = held_karp_dp g j S + ?w j e"
    using path_cost_snoc[of "?o # p" ?w e] p(4,5) p(3) by simp
  show "0 \<le> held_karp_dp g j S + ?w j e \<and> held_karp_dp g j S + ?w j e \<le> INT_MAX"
    using path_cost_bounds[OF wf da ss'] path_cost_le_INT_MAX[OF wf da ss' len'] eq by simp
qed

lemma Min_insert_min:
  "finite X \<Longrightarrow> Min (insert (min a b) X) = Min (insert b (insert (a::int) X))"
  by (cases "X = {}") (auto simp: min.assoc min.commute min.left_commute)

lemma vset_from_split:
  "bit sub v \<Longrightarrow> {k \<in> vset sub. v \<le> k} = insert v {k \<in> vset sub. v + 1 \<le> k}"
  by (auto simp: vset_def)

lemma vset_from_skip:
  "\<not> bit sub v \<Longrightarrow> {k \<in> vset sub. v \<le> k} = {k \<in> vset sub. v + 1 \<le> k}"
proof -
  assume nb: "\<not> bit sub v"
  have "v + 1 \<le> k" if "bit sub k" "v \<le> k" for k
  proof -
    from that nb have "k \<noteq> v" by auto
    with that show ?thesis by simp
  qed
  then show ?thesis by (auto simp: vset_def)
qed

lemma dp_correct:
  "well_formed g \<Longrightarrow> table_ok g (table s) \<Longrightarrow> e < getVertexCount g - 1 \<Longrightarrow> bit S e
     \<Longrightarrow> vset S \<subseteq> {0..<getVertexCount g - 1}
     \<Longrightarrow> fst (dpGetPartialPathCost g S e s) = held_karp_dp g e (vset S)
       \<and> table_ok g (table (snd (dpGetPartialPathCost g S e s)))"
  "well_formed g \<Longrightarrow> table_ok g (table s) \<Longrightarrow> e < getVertexCount g - 1 \<Longrightarrow> \<not> bit sub e
     \<Longrightarrow> vset sub \<subseteq> {0..<getVertexCount g - 1}
     \<Longrightarrow> fst (dpVertexLoop g sub e v best s)
           = Min (insert best ((\<lambda>k. held_karp_dp g k (vset sub) + getEdgeParameter g k e)
                                  ` {k \<in> vset sub. v \<le> k}))
       \<and> table_ok g (table (snd (dpVertexLoop g sub e v best s)))"
proof (induction g S e s and g sub e v best s rule: dpGetPartialPathCost_dpVertexLoop.induct)
  case (1 g S e s)
  let ?n = "getVertexCount g" and ?w = "getEdgeParameter g"
  note wf = "1.prems"(1) and ok = "1.prems"(2) and e = "1.prems"(3) and bit = "1.prems"(4)
    and sub = "1.prems"(5)
  have eS: "e \<in> vset S" using bit by (simp add: vset_def)
  have nonneg: "0 \<le> held_karp_dp g e (vset S)"
    by (rule held_karp_dp_bounds(1)[OF wf sub eS])
  have cell: "(table s e S = - 1 \<and> S \<noteq> bit_of e) \<or> table s e S = held_karp_dp g e (vset S)"
    using ok e bit sub unfolding table_ok_def by blast
  show ?case
  proof (cases "table s e S = - 1")
    case False
    then show ?thesis using cell ok by (simp add: dpGetPartialPathCost.simps)
  next
    case True
    define x where "x = S AND NOT (bit_of e)"
    define r where "r = dpVertexLoop g x e 0 INT_MAX s"
    have ne: "S \<noteq> bit_of e" using True cell nonneg by auto
    have vx: "vset x = vset S - {e}" by (simp add: x_def vset_remove)
    have nbit: "\<not> bit x e" by (simp add: x_def bit_remove)
    have xsub: "vset x \<subseteq> {0..<?n - 1}" using sub vx by auto
    have ih: "fst r = Min (insert INT_MAX ((\<lambda>k. held_karp_dp g k (vset x) + ?w k e) ` {k \<in> vset x. 0 \<le> k}))"
      and ok': "table_ok g (table (snd r))"
      using "1.IH"[OF True x_def wf ok e nbit xsub] by (simp_all add: r_def)
    let ?X = "(\<lambda>k. held_karp_dp g k (vset x) + ?w k e) ` vset x"
    have neS: "vset S \<noteq> {e}" using ne vset_singleton_iff[OF bit] by simp
    have Xne: "?X \<noteq> {}" using neS eS vx by auto
    have Xfin: "finite ?X" by (simp add: finite_vset)
    have Xle: "\<And>y. y \<in> ?X \<Longrightarrow> y \<le> INT_MAX"
    proof -
      fix y assume "y \<in> ?X"
      then obtain k where k: "k \<in> vset x" and y: "y = held_karp_dp g k (vset x) + ?w k e" by auto
      have "e < ?n" "e \<noteq> k" using e k vx by auto
      from held_karp_dp_bounds(2)[OF wf xsub k this] y show "y \<le> INT_MAX" by simp
    qed
    have "Min (insert INT_MAX ?X) = Min ?X"
      using Xne Xfin Xle by (simp add: Min_insert2 min_absorb2)
    also have "\<dots> = held_karp_dp g e (vset S)"
      using neS eS finite_vset[of S] by (subst (2) held_karp_dp.simps) (simp add: vx)
    finally have val: "fst r = held_karp_dp g e (vset S)" using ih by simp
    have res: "dpGetPartialPathCost g S e s =
       (fst r, (snd r)\<lparr> table := (table (snd r))(e := (table (snd r) e)(S := fst r)),
                     writes := writes (snd r) @ [((e, S), table (snd r) e S, fst r)] \<rparr>)"
      using True by (subst dpGetPartialPathCost.simps)
        (simp add: Let_def case_prod_beta x_def r_def)
    have tok: "table_ok g ((table (snd r))(e := (table (snd r) e)(S := fst r)))"
      using ok' val unfolding table_ok_def by auto
    have "fst (dpGetPartialPathCost g S e s) = fst r"
      and "table (snd (dpGetPartialPathCost g S e s))
             = (table (snd r))(e := (table (snd r) e)(S := fst r))"
      unfolding res by simp_all
    then show ?thesis using val tok by (simp only:)
  qed
next
  case (2 g sub e v best s)
  let ?n = "getVertexCount g" and ?w = "getEdgeParameter g"
  note wf = "2.prems"(1) and ok = "2.prems"(2) and e = "2.prems"(3) and nbit = "2.prems"(4)
    and sub = "2.prems"(5)
  let ?f = "\<lambda>k. held_karp_dp g k (vset sub) + ?w k e"
  show ?case
  proof (cases "v < ?n - 1")
    case False
    then have emp: "{k \<in> vset sub. v \<le> k} = {}" using sub by auto
    have "dpVertexLoop g sub e v best s = (best, s)"
      using False by (subst dpVertexLoop.simps) simp
    then show ?thesis unfolding emp using ok by simp
  next
    case True
    show ?thesis
    proof (cases "sub AND bit_of v = 0")
      case z: True
      then have nb: "\<not> bit sub v" by (simp add: and_bit_of_eq_0_iff)
      have eq: "dpVertexLoop g sub e v best s = dpVertexLoop g sub e (v + 1) best s"
        using True z by (subst dpVertexLoop.simps) simp
      show ?thesis
        unfolding eq vset_from_skip[OF nb]
        by (rule "2.IH"(1)[OF True z wf ok e nbit sub])
    next
      case nz: False
      then have b: "bit sub v" by (simp add: and_bit_of_eq_0_iff)
      define r where "r = dpGetPartialPathCost g sub v s"
      define pc where "pc = add32 (fst r) (?w v e)"
      define best' where "best' = (if pc < best then pc else best)"
      have p: "fst r = held_karp_dp g v (vset sub)" and ok1: "table_ok g (table (snd r))"
        using "2.IH"(2)[OF True nz wf ok True b sub] by (simp_all add: r_def)
      have vin: "v \<in> vset sub" using b by (simp add: vset_def)
      have ev: "e < ?n" "e \<noteq> v" using e b nbit by auto
      have pceq: "pc = ?f v"
        using held_karp_dp_bounds(2)[OF wf sub vin ev] p by (simp add: pc_def add32_eq)
      have eq: "dpVertexLoop g sub e v best s = dpVertexLoop g sub e (v + 1) best' (snd r)"
        using True nz by (subst dpVertexLoop.simps)
          (simp add: Let_def case_prod_beta r_def pc_def best'_def)
      have ih: "fst (dpVertexLoop g sub e (v + 1) best' (snd r))
           = Min (insert best' (?f ` {k \<in> vset sub. v + 1 \<le> k}))
         \<and> table_ok g (table (snd (dpVertexLoop g sub e (v + 1) best' (snd r))))"
        by (rule "2.IH"(3)[OF True nz r_def prod.collapse pc_def best'_def wf ok1 e nbit sub])
      have fin: "finite (?f ` {k \<in> vset sub. v + 1 \<le> k})" by (simp add: finite_vset)
      have "best' = min pc best" by (simp add: best'_def min_def)
      then have "Min (insert best' (?f ` {k \<in> vset sub. v + 1 \<le> k}))
          = Min (insert best (?f ` {k \<in> vset sub. v \<le> k}))"
        using Min_insert_min[OF fin, of pc best] pceq by (simp add: vset_from_split[OF b])
      then show ?thesis using ih eq by simp
    qed
  qed
qed

lemma initialTable_ok: "table_ok g (initialTable g)"
proof -
  have "initialTable g v S = held_karp_dp g v (vset S)"
    if "v < getVertexCount g - 1" "bit S v" "S = bit_of v" for v S
  proof -
    have "vset S = {v}" using that(2,3) vset_singleton_iff by blast
    then show ?thesis using that by (simp add: initialTable_def held_karp_dp.simps)
  qed
  then show ?thesis
    unfolding table_ok_def by (auto simp: initialTable_def)
qed

lemma vset_fullPathSet: "m < 32 \<Longrightarrow> vset (bit_of m - 1) = {0..<m}"
proof -
  assume m: "m < 32"
  have "bit_of m - 1 = (mask m :: 32 word)"
    by (simp add: bit_of_def mask_eq_exp_minus_1)
  then show ?thesis using m by (auto simp: vset_def bit_mask_iff)
qed

lemma hkEndVertexStep_correct:
  assumes wf: "well_formed g" and n: "getVertexCount g \<le> 32"
    and ok: "table_ok g (table s)" and j: "j < getVertexCount g - 1"
  shows "fst (hkEndVertexStep g (bit_of (getVertexCount g - 1) - 1) j (best, s))
           = min (tour_through g j) best"
    and "table_ok g (table (snd (hkEndVertexStep g (bit_of (getVertexCount g - 1) - 1) j (best, s))))"
proof -
  let ?n = "getVertexCount g" and ?full = "bit_of (getVertexCount g - 1) - 1 :: 32 word"
  have n2: "2 \<le> ?n" using wf by (simp add: well_formed_def)
  have vf: "vset ?full = {0..<?n - 1}" using n n2 by (intro vset_fullPathSet) simp
  then have b: "bit ?full j" using j by (auto simp: vset_def)
  have sub: "vset ?full \<subseteq> {0..<?n - 1}" using vf by simp
  define r where "r = dpGetPartialPathCost g ?full j s"
  have c: "fst r = held_karp_dp g j {0..<?n - 1}" and ok': "table_ok g (table (snd r))"
    using dp_correct(1)[OF wf ok j b sub, unfolded vf] by (simp_all only: r_def)
  have jF: "j \<in> {0..<?n - 1}" using j by simp
  have "?n - 1 < ?n" "?n - 1 \<noteq> j" using n2 j by auto
  from held_karp_dp_bounds(2)[OF wf subset_refl jF this]
  have pc: "add32 (fst r) (getEdgeParameter g j (?n - 1)) = tour_through g j"
    by (simp add: c tour_through_def add32_eq)
  have "hkEndVertexStep g ?full j (best, s)
      = (if add32 (fst r) (getEdgeParameter g j (?n - 1)) < best
         then add32 (fst r) (getEdgeParameter g j (?n - 1)) else best, snd r)"
    by (simp only: hkEndVertexStep_def Let_def case_prod_beta fst_conv snd_conv r_def)
  then have res: "hkEndVertexStep g ?full j (best, s)
      = (if tour_through g j < best then tour_through g j else best, snd r)"
    by (simp only: pc)
  show "fst (hkEndVertexStep g ?full j (best, s)) = min (tour_through g j) best"
    unfolding res by (simp add: min_def)
  show "table_ok g (table (snd (hkEndVertexStep g ?full j (best, s))))"
    unfolding res using ok' by simp
qed

lemma hk_fold_correct:
  assumes wf: "well_formed g" and n: "getVertexCount g \<le> 32"
    and ok: "table_ok g (table s)"
  shows "k \<le> getVertexCount g - 1 \<Longrightarrow>
     fst (fold (hkEndVertexStep g (bit_of (getVertexCount g - 1) - 1)) [0..<k] (best, s))
        = Min (insert best (tour_through g ` {0..<k}))
     \<and> table_ok g (table (snd (fold (hkEndVertexStep g (bit_of (getVertexCount g - 1) - 1))
                                   [0..<k] (best, s))))"
proof (induction k)
  case 0
  then show ?case using ok by simp
next
  case (Suc k)
  let ?full = "bit_of (getVertexCount g - 1) - 1 :: 32 word"
  define a where "a = fold (hkEndVertexStep g ?full) [0..<k] (best, s)"
  have ih: "fst a = Min (insert best (tour_through g ` {0..<k}))" "table_ok g (table (snd a))"
    using Suc by (simp_all add: a_def)
  have k: "k < getVertexCount g - 1" using Suc.prems by simp
  have step: "fold (hkEndVertexStep g ?full) [0..<Suc k] (best, s)
      = hkEndVertexStep g ?full k (fst a, snd a)"
    by (simp add: a_def)
  have "fst (hkEndVertexStep g ?full k (fst a, snd a))
           = min (tour_through g k) (Min (insert best (tour_through g ` {0..<k})))"
    using hkEndVertexStep_correct(1)[OF wf n ih(2) k] ih(1) by simp
  also have "\<dots> = Min (insert (tour_through g k) (insert best (tour_through g ` {0..<k})))"
    by (subst Min_insert) simp_all
  also have "\<dots> = Min (insert best (tour_through g ` {0..<Suc k}))"
    by (simp add: atLeast0_lessThan_Suc insert_commute)
  finally have s1: "fst (hkEndVertexStep g ?full k (fst a, snd a))
      = Min (insert best (tour_through g ` {0..<Suc k}))" .
  have s2: "table_ok g (table (snd (hkEndVertexStep g ?full k (fst a, snd a))))"
    by (rule hkEndVertexStep_correct(2)[OF wf n ih(2) k])
  show ?case unfolding step by (intro conjI s1 s2)
qed

lemma held_karp_answer_le_INT_MAX:
  assumes wf: "well_formed g" and j: "j < getVertexCount g - 1"
  shows "tour_through g j \<le> INT_MAX"
proof -
  have n2: "2 \<le> getVertexCount g" using wf by (simp add: well_formed_def)
  have jF: "j \<in> {0..<getVertexCount g - 1}" using j by simp
  have "getVertexCount g - 1 < getVertexCount g" "getVertexCount g - 1 \<noteq> j" using n2 j by auto
  from held_karp_dp_bounds(2)[OF wf subset_refl jF this]
  show ?thesis by (simp add: tour_through_def)
qed

lemma dynamicProgrammingHeldKarp_correct:
  assumes wf: "well_formed g" and n: "getVertexCount g \<le> 32"
  shows "dynamicProgrammingHeldKarp g = Inr (held_karp_answer g)"
proof -
  let ?n = "getVertexCount g"
  let ?full = "bit_of (?n - 1) - 1 :: 32 word"
  let ?s0 = "\<lparr> table = initialTable g, writes = [] \<rparr>"
  have n2: "2 \<le> ?n" using wf by (simp add: well_formed_def)
  have ok0: "table_ok g (table ?s0)" by (simp add: initialTable_ok)
  have run: "dynamicProgrammingHeldKarpRun g
      = Inr (fold (hkEndVertexStep g ?full) [0..<?n - 1] (INT_MAX, ?s0))"
    using n n2 by (simp add: dynamicProgrammingHeldKarpRun_def Let_def)
  have "fst (fold (hkEndVertexStep g ?full) [0..<?n - 1] (INT_MAX, ?s0))
      = Min (insert INT_MAX (tour_through g ` {0..<?n - 1}))"
    using hk_fold_correct[OF wf n ok0 le_refl] by simp
  also have "\<dots> = Min (tour_through g ` {0..<?n - 1})"
  proof -
    have "{0..<?n - 1} \<noteq> {}" using n2 by simp
    moreover have "\<forall>y \<in> tour_through g ` {0..<?n - 1}. y \<le> INT_MAX"
      using held_karp_answer_le_INT_MAX[OF wf] by auto
    moreover have "Min (tour_through g ` {0..<?n - 1}) \<in> tour_through g ` {0..<?n - 1}"
      using \<open>{0..<?n - 1} \<noteq> {}\<close> by (intro Min_in) simp_all
    ultimately have "Min (tour_through g ` {0..<?n - 1}) \<le> INT_MAX"
      by blast
    then show ?thesis using \<open>{0..<?n - 1} \<noteq> {}\<close> by (subst Min_insert) simp_all
  qed
  also have "\<dots> = held_karp_answer g"
    by (simp add: held_karp_answer_def tour_through_def[abs_def])
  finally show ?thesis
    by (simp add: dynamicProgrammingHeldKarp_def run)
qed

section \<open>Held-Karp: the stores into the table\<close>

lemma cache_kept_refl: "cache_kept s s"
  by (simp add: cache_kept_def)

lemma cache_kept_trans: "cache_kept s s1 \<Longrightarrow> cache_kept s1 s2 \<Longrightarrow> cache_kept s s2"
  by (auto simp: cache_kept_def)

lemma only_within_refl: "only_within S s s"
  by (simp add: only_within_def)

lemma only_within_trans: "only_within S s s1 \<Longrightarrow> only_within S s1 s2 \<Longrightarrow> only_within S s s2"
  by (simp add: only_within_def)

lemma only_within_mono: "only_within S s s' \<Longrightarrow> vset S \<subseteq> vset S' \<Longrightarrow> only_within S' s s'"
  by (auto simp: only_within_def)

lemma store_log_ok:
  assumes ok: "log_ok s1" and old: "table s1 e S = - 1" and new: "c \<noteq> - 1"
  shows "log_ok (s1\<lparr> table := (table s1)(e := (table s1 e)(S := c)),
                    writes := writes s1 @ [((e, S), table s1 e S, c)] \<rparr>)"
proof -
  have notin: "(e, S) \<notin> fst ` set (writes s1)"
  proof
    assume "(e, S) \<in> fst ` set (writes s1)"
    then obtain x where x: "x \<in> set (writes s1)" "fst x = (e, S)" by auto
    with ok have "table s1 e S = snd (snd x)" "snd (snd x) \<noteq> - 1"
      by (auto simp: log_ok_def)
    with old show False by simp
  qed
  let ?T = "(table s1)(e := (table s1 e)(S := c))"
  have keep: "?T (fst (fst x)) (snd (fst x)) = table s1 (fst (fst x)) (snd (fst x))"
    if "x \<in> set (writes s1)" for x
  proof -
    from that notin have "fst x \<noteq> (e, S)" by force
    then have "fst (fst x) \<noteq> e \<or> snd (fst x) \<noteq> S" by (metis prod.collapse)
    then show ?thesis by auto
  qed
  have a: "fst (snd x) = - 1 \<and> snd (snd x) \<noteq> - 1 \<and> ?T (fst (fst x)) (snd (fst x)) = snd (snd x)"
    if "x \<in> set (writes s1)" for x
    using ok that keep[OF that] by (simp add: log_ok_def)
  have b: "?T e S = c" by simp
  have d: "distinct (map fst (writes s1 @ [((e, S), table s1 e S, c)]))"
    using ok notin by (simp add: log_ok_def)
  show ?thesis
    unfolding log_ok_def using a b d old new by (auto simp del: fun_upd_apply)
qed

lemma dp_writes:
  "well_formed g \<Longrightarrow> table_ok g (table s) \<Longrightarrow> e < getVertexCount g - 1 \<Longrightarrow> bit S e
     \<Longrightarrow> vset S \<subseteq> {0..<getVertexCount g - 1} \<Longrightarrow> log_ok s
     \<Longrightarrow> log_ok (snd (dpGetPartialPathCost g S e s))
       \<and> cache_kept s (snd (dpGetPartialPathCost g S e s))
       \<and> only_within S s (snd (dpGetPartialPathCost g S e s))"
  "well_formed g \<Longrightarrow> table_ok g (table s) \<Longrightarrow> e < getVertexCount g - 1 \<Longrightarrow> \<not> bit sub e
     \<Longrightarrow> vset sub \<subseteq> {0..<getVertexCount g - 1} \<Longrightarrow> log_ok s
     \<Longrightarrow> log_ok (snd (dpVertexLoop g sub e v best s))
       \<and> cache_kept s (snd (dpVertexLoop g sub e v best s))
       \<and> only_within sub s (snd (dpVertexLoop g sub e v best s))"
proof (induction g S e s and g sub e v best s rule: dpGetPartialPathCost_dpVertexLoop.induct)
  case (1 g S e s)
  let ?n = "getVertexCount g"
  note wf = "1.prems"(1) and ok = "1.prems"(2) and e = "1.prems"(3) and bit = "1.prems"(4)
    and sub = "1.prems"(5) and lg = "1.prems"(6)
  show ?case
  proof (cases "table s e S = - 1")
    case False
    then have "dpGetPartialPathCost g S e s = (table s e S, s)"
      by (subst dpGetPartialPathCost.simps) simp
    then show ?thesis using lg by (simp add: cache_kept_refl only_within_refl)
  next
    case True
    define x where "x = S AND NOT (bit_of e)"
    define r where "r = dpVertexLoop g x e 0 INT_MAX s"
    define s1 where "s1 = snd r"
    have vx: "vset x = vset S - {e}" by (simp add: x_def vset_remove)
    have nbit: "\<not> bit x e" by (simp add: x_def bit_remove)
    have xsub: "vset x \<subseteq> {0..<?n - 1}" using sub vx by auto
    have ih: "log_ok s1" "cache_kept s s1" "only_within x s s1"
      using "1.IH"[OF True x_def wf ok e nbit xsub lg] by (simp_all add: r_def s1_def)
    have res: "dpGetPartialPathCost g S e s =
       (fst r, s1\<lparr> table := (table s1)(e := (table s1 e)(S := fst r)),
                   writes := writes s1 @ [((e, S), table s1 e S, fst r)] \<rparr>)"
      using True by (subst dpGetPartialPathCost.simps)
        (simp add: Let_def case_prod_beta x_def r_def s1_def)
    have eS: "e \<in> vset S" using bit by (simp add: vset_def)
    have "\<not> vset S \<subseteq> vset x" using vx eS by auto
    then have old: "table s1 e S = - 1" using ih(3) True by (simp add: only_within_def)
    have "fst r = held_karp_dp g e (vset S)"
      using dp_correct(1)[OF wf ok e bit sub] unfolding res by simp
    then have new: "fst r \<noteq> - 1"
      using held_karp_dp_bounds(1)[OF wf sub eS] by simp
    let ?s2 = "s1\<lparr> table := (table s1)(e := (table s1 e)(S := fst r)),
                   writes := writes s1 @ [((e, S), table s1 e S, fst r)] \<rparr>"
    have l2: "log_ok ?s2" by (rule store_log_ok[OF ih(1) old new])
    have k2: "cache_kept s1 ?s2" using old by (auto simp: cache_kept_def)
    have w2: "only_within S s1 ?s2" by (auto simp: only_within_def)
    have w1: "only_within S s s1" using ih(3) vx by (auto intro: only_within_mono)
    show ?thesis
      unfolding res snd_conv
      using l2 cache_kept_trans[OF ih(2) k2] only_within_trans[OF w1 w2] by (intro conjI)
  qed
next
  case (2 g sub e v best s)
  let ?n = "getVertexCount g" and ?w = "getEdgeParameter g"
  note wf = "2.prems"(1) and ok = "2.prems"(2) and e = "2.prems"(3) and nbit = "2.prems"(4)
    and sub = "2.prems"(5) and lg = "2.prems"(6)
  show ?case
  proof (cases "v < ?n - 1")
    case False
    have "dpVertexLoop g sub e v best s = (best, s)"
      using False by (subst dpVertexLoop.simps) simp
    then show ?thesis using lg by (simp add: cache_kept_refl only_within_refl)
  next
    case True
    show ?thesis
    proof (cases "sub AND bit_of v = 0")
      case z: True
      have eq: "dpVertexLoop g sub e v best s = dpVertexLoop g sub e (v + 1) best s"
        using True z by (subst dpVertexLoop.simps) simp
      show ?thesis
        unfolding eq by (rule "2.IH"(1)[OF True z wf ok e nbit sub lg])
    next
      case nz: False
      then have b: "bit sub v" by (simp add: and_bit_of_eq_0_iff)
      define r where "r = dpGetPartialPathCost g sub v s"
      define pc where "pc = add32 (fst r) (?w v e)"
      define best' where "best' = (if pc < best then pc else best)"
      have ok1: "table_ok g (table (snd r))"
        using dp_correct(1)[OF wf ok True b sub] by (simp add: r_def)
      have ih1: "log_ok (snd r)" "cache_kept s (snd r)" "only_within sub s (snd r)"
        using "2.IH"(2)[OF True nz wf ok True b sub lg] by (simp_all add: r_def)
      have eq: "dpVertexLoop g sub e v best s = dpVertexLoop g sub e (v + 1) best' (snd r)"
        using True nz by (subst dpVertexLoop.simps)
          (simp add: Let_def case_prod_beta r_def pc_def best'_def)
      have ih: "log_ok (snd (dpVertexLoop g sub e (v + 1) best' (snd r)))
         \<and> cache_kept (snd r) (snd (dpVertexLoop g sub e (v + 1) best' (snd r)))
         \<and> only_within sub (snd r) (snd (dpVertexLoop g sub e (v + 1) best' (snd r)))"
        by (rule "2.IH"(3)[OF True nz r_def prod.collapse pc_def best'_def wf ok1 e nbit sub ih1(1)])
      show ?thesis
        unfolding eq
        using ih cache_kept_trans[OF ih1(2)] only_within_trans[OF ih1(3)] by blast
    qed
  qed
qed

lemma hkEndVertexStep_snd:
  "snd (hkEndVertexStep g full j (best, s)) = snd (dpGetPartialPathCost g full j s)"
  by (simp only: hkEndVertexStep_def Let_def case_prod_beta fst_conv snd_conv)

lemma hk_fold_writes:
  assumes wf: "well_formed g" and n: "getVertexCount g \<le> 32"
    and ok: "table_ok g (table s)" and lg: "log_ok s"
  shows "k \<le> getVertexCount g - 1 \<Longrightarrow>
     log_ok (snd (fold (hkEndVertexStep g (bit_of (getVertexCount g - 1) - 1)) [0..<k] (best, s)))
     \<and> cache_kept s (snd (fold (hkEndVertexStep g (bit_of (getVertexCount g - 1) - 1))
                              [0..<k] (best, s)))"
proof (induction k)
  case 0
  then show ?case using lg by (simp add: cache_kept_refl)
next
  case (Suc k)
  let ?n = "getVertexCount g"
  let ?full = "bit_of (?n - 1) - 1 :: 32 word"
  define a where "a = fold (hkEndVertexStep g ?full) [0..<k] (best, s)"
  have k: "k < ?n - 1" and k': "k \<le> ?n - 1" using Suc.prems by simp_all
  have ih: "log_ok (snd a)" "cache_kept s (snd a)"
    using Suc.IH[OF k'] by (simp_all add: a_def)
  have ok1: "table_ok g (table (snd a))"
    using hk_fold_correct[OF wf n ok k', of best] by (simp add: a_def)
  have n2: "2 \<le> ?n" using wf by (simp add: well_formed_def)
  have vf: "vset ?full = {0..<?n - 1}" using n n2 by (intro vset_fullPathSet) simp
  then have b: "bit ?full k" using k by (auto simp: vset_def)
  have sub: "vset ?full \<subseteq> {0..<?n - 1}" using vf by simp
  have step: "fold (hkEndVertexStep g ?full) [0..<Suc k] (best, s)
      = hkEndVertexStep g ?full k (fst a, snd a)"
    by (simp add: a_def)
  have w: "log_ok (snd (dpGetPartialPathCost g ?full k (snd a)))"
    "cache_kept (snd a) (snd (dpGetPartialPathCost g ?full k (snd a)))"
    using dp_writes(1)[OF wf ok1 k b sub ih(1)] by simp_all
  show ?case
    unfolding step hkEndVertexStep_snd
    using w(1) cache_kept_trans[OF ih(2) w(2)] by (intro conjI)
qed

section \<open>Held-Karp: the calls of the recursion\<close>

lemma wf_dp_rel: "wfP dpGetPartialPathCost_dpVertexLoop_rel"
proof -
  let ?m = "\<lambda>x. case x of
        Inl (g, S, e, s) \<Rightarrow> (card (vset (S AND NOT (bit_of e))), 1::nat, 0::nat)
      | Inr (g, sub, e, v, b, s) \<Rightarrow> (card (vset sub), 0, getVertexCount g - 1 - v)"
  let ?R = "inv_image (less_than <*lex*> less_than <*lex*> less_than) ?m"
  have "wf ?R" by (intro wf_inv_image wf_lex_prod wf_less_than)
  moreover have "{(y, x). dpGetPartialPathCost_dpVertexLoop_rel y x} \<subseteq> ?R"
    by (auto elim!: dpGetPartialPathCost_dpVertexLoop_rel.cases
             simp: and_bit_of_eq_0_iff card_vset_remove)
  ultimately have "wf {(y, x). dpGetPartialPathCost_dpVertexLoop_rel y x}"
    by (rule wf_subset)
  then show ?thesis by (simp add: wfp_def)
qed

lemma dp_rel_subset:
  "dpGetPartialPathCost_dpVertexLoop_rel y x \<Longrightarrow> call_set y \<subseteq> call_set x"
  by (erule dpGetPartialPathCost_dpVertexLoop_rel.cases) (auto simp: call_set_def vset_remove)

lemma dp_rel_from_call:
  "dpGetPartialPathCost_dpVertexLoop_rel y (Inl (g, S, e, s)) \<Longrightarrow>
     table s e S = - 1 \<and> y = Inr (g, S AND NOT (bit_of e), e, 0, INT_MAX, s)"
  by (erule dpGetPartialPathCost_dpVertexLoop_rel.cases) auto

lemma dp_rel_to_call:
  "dpGetPartialPathCost_dpVertexLoop_rel (Inl (g', S', v, s')) x \<Longrightarrow>
     \<exists>e k b. x = Inr (g', S', e, k, b, s') \<and> bit S' v"
  by (erule dpGetPartialPathCost_dpVertexLoop_rel.cases) (auto simp: and_bit_of_eq_0_iff)

section \<open>Branch and bound: the reduction loops\<close>

lemma wrap32_id: "- 2147483648 \<le> x \<Longrightarrow> x \<le> INT_MAX \<Longrightarrow> wrap32 x = x"
  by (simp add: wrap32_def INT_MAX_def mod_pos_pos_trivial)

lemma wrap32_add_left: "wrap32 (wrap32 a + b) = wrap32 (a + b)"
proof -
  have "(a + 2147483648) mod 4294967296 - 2147483648 + b + 2147483648
      = (a + 2147483648) mod 4294967296 + (b::int)" by simp
  moreover have "((a + 2147483648) mod 4294967296 + b) mod 4294967296
      = (a + 2147483648 + b) mod (4294967296::int)" by (rule mod_add_left_eq)
  moreover have "a + 2147483648 + b = a + b + (2147483648::int)" by simp
  ultimately show ?thesis unfolding wrap32_def by presburger
qed

lemma add32_wrap32: "add32 (wrap32 a) b = wrap32 (a + b)"
  by (simp add: add32_def wrap32_add_left)

lemma sub32_self: "sub32 x x = 0"
  by (simp add: sub32_def wrap32_def)

lemma update_mapped_prefix:
  "k < length r \<Longrightarrow> (map f (take k r) @ drop k r)[k := f (r ! k)]
      = map f (take (Suc k) r) @ drop (Suc k) r"
proof -
  assume k: "k < length r"
  have "drop k r = r ! k # drop (Suc k) r" using k by (simp add: Cons_nth_drop_Suc)
  moreover have "length (map f (take k r)) = k" using k by simp
  ultimately have "(map f (take k r) @ drop k r)[k := f (r ! k)]
      = map f (take k r) @ f (r ! k) # drop (Suc k) r"
    by (metis list_update_length)
  then show ?thesis using k by (simp add: take_Suc_conv_app_nth)
qed

lemma nth_mapped_prefix:
  "k < length r \<Longrightarrow> (map f (take k r) @ drop k r) ! k = r ! k"
  by (simp add: nth_append)

lemma mset2_same: "mset2 d i j (d ! i ! j) = d"
  by (simp add: mset2_def)

lemma mset2_nth: "i < length d \<Longrightarrow> j < length (d ! i) \<Longrightarrow> mset2 d i j x ! i ! j = x"
  by (simp add: mset2_def)

lemma reduceRowCell_eq:
  assumes "i < length d" "j < length (d ! i)"
  shows "reduceRowCell i m j (d, zs)
     = (mset2 d i j (reduced m (d ! i ! j)),
        zs @ (if d ! i ! j \<noteq> INT_MAX \<and> sub32 (d ! i ! j) m = 0 then [((i, j), (0, 0))] else []))"
proof (cases "d ! i ! j = INT_MAX")
  case True
  then have "reduced m (d ! i ! j) = d ! i ! j" by (simp add: reduced_def)
  then have "mset2 d i j (reduced m (d ! i ! j)) = d" by (simp only: mset2_same)
  then show ?thesis using True by (simp add: reduceRowCell_def)
next
  case False
  then show ?thesis
    using mset2_nth[OF assms] by (simp add: reduceRowCell_def reduced_def Let_def)
qed

lemma reduceRowCell_fold:
  assumes i: "i < length d"
  shows "k \<le> length (d ! i) \<Longrightarrow>
     fold (reduceRowCell i m) [0..<k] (d, zs)
       = (d[i := map (reduced m) (take k (d ! i)) @ drop k (d ! i)],
          zs @ map (\<lambda>j. ((i, j), (0, 0)))
                 (filter (\<lambda>j. d ! i ! j \<noteq> INT_MAX \<and> sub32 (d ! i ! j) m = 0) [0..<k]))"
proof (induction k)
  case 0
  then show ?case by simp
next
  case (Suc k)
  let ?r = "d ! i"
  let ?dk = "d[i := map (reduced m) (take k ?r) @ drop k ?r]"
  have k: "k < length ?r" using Suc.prems by simp
  have row: "?dk ! i = map (reduced m) (take k ?r) @ drop k ?r" using i by simp
  have cell: "?dk ! i ! k = ?r ! k" unfolding row using k by (rule nth_mapped_prefix)
  have len: "k < length (?dk ! i)" unfolding row using k by simp
  have upd: "mset2 ?dk i k (reduced m (?r ! k))
       = d[i := map (reduced m) (take (Suc k) ?r) @ drop (Suc k) ?r]"
    unfolding mset2_def row using update_mapped_prefix[OF k, of "reduced m"] by simp
  have i': "i < length ?dk" using i by simp
  have "fold (reduceRowCell i m) [0..<Suc k] (d, zs)
      = reduceRowCell i m k (fold (reduceRowCell i m) [0..<k] (d, zs))" by simp
  also have "\<dots> = reduceRowCell i m k (?dk, zs @ map (\<lambda>j. ((i, j), (0, 0)))
                 (filter (\<lambda>j. ?r ! j \<noteq> INT_MAX \<and> sub32 (?r ! j) m = 0) [0..<k]))"
    using Suc.IH k by simp
  also have "\<dots> = (mset2 ?dk i k (reduced m (?r ! k)),
      (zs @ map (\<lambda>j. ((i, j), (0, 0)))
                 (filter (\<lambda>j. ?r ! j \<noteq> INT_MAX \<and> sub32 (?r ! j) m = 0) [0..<k]))
       @ (if ?r ! k \<noteq> INT_MAX \<and> sub32 (?r ! k) m = 0 then [((i, k), (0, 0))] else []))"
    by (simp only: reduceRowCell_eq[OF i' len] cell)
  finally show ?case by (simp add: upd)
qed

lemma reduceColumnCell_eq_row: "reduceColumnCell j m i = reduceRowCell i m j"
  by (rule ext) (simp add: reduceColumnCell_def reduceRowCell_def)

lemma reduceColumnCell_fold:
  assumes w: "\<forall>i<length d. j < length (d ! i)"
  shows "k \<le> length d \<Longrightarrow>
     fold (reduceColumnCell j m) [0..<k] (d, zs)
       = (map (\<lambda>row. row[j := reduced m (row ! j)]) (take k d) @ drop k d,
          zs @ map (\<lambda>i. ((i, j), (0, 0)))
                 (filter (\<lambda>i. d ! i ! j \<noteq> INT_MAX \<and> sub32 (d ! i ! j) m = 0) [0..<k]))"
proof (induction k)
  case 0
  then show ?case by simp
next
  case (Suc k)
  let ?F = "\<lambda>row. row[j := reduced m (row ! j)]"
  let ?dk = "map ?F (take k d) @ drop k d"
  have k: "k < length d" using Suc.prems by simp
  have row: "?dk ! k = d ! k" using k by (rule nth_mapped_prefix)
  have k': "k < length ?dk" using k by simp
  have len: "j < length (?dk ! k)" unfolding row using w k by simp
  have upd: "mset2 ?dk k j (reduced m (d ! k ! j)) = map ?F (take (Suc k) d) @ drop (Suc k) d"
    unfolding mset2_def row using update_mapped_prefix[OF k, of ?F] by simp
  have "fold (reduceColumnCell j m) [0..<Suc k] (d, zs)
      = reduceRowCell k m j (fold (reduceColumnCell j m) [0..<k] (d, zs))"
    by (simp add: reduceColumnCell_eq_row)
  also have "\<dots> = reduceRowCell k m j (?dk, zs @ map (\<lambda>i. ((i, j), (0, 0)))
                 (filter (\<lambda>i. d ! i ! j \<noteq> INT_MAX \<and> sub32 (d ! i ! j) m = 0) [0..<k]))"
    using Suc.IH k by simp
  also have "\<dots> = (mset2 ?dk k j (reduced m (d ! k ! j)),
      (zs @ map (\<lambda>i. ((i, j), (0, 0)))
                 (filter (\<lambda>i. d ! i ! j \<noteq> INT_MAX \<and> sub32 (d ! i ! j) m = 0) [0..<k]))
       @ (if d ! k ! j \<noteq> INT_MAX \<and> sub32 (d ! k ! j) m = 0 then [((k, j), (0, 0))] else []))"
    by (simp only: reduceRowCell_eq[OF k' len] row)
  finally show ?case by (simp add: upd)
qed

lemma reduceRow_eq:
  assumes i: "i < length d" and sq: "length (d ! i) = length d"
  shows "reduceRow i (d, lb, zs)
     = (d[i := reduceRowOf (d ! i)],
        (if min_element (d ! i) = INT_MAX then lb else add32 lb (min_element (d ! i))),
        zs @ rowZeroes i (d ! i))"
proof (cases "min_element (d ! i) = INT_MAX")
  case True
  then show ?thesis by (simp add: reduceRow_def reduceRowOf_def rowZeroes_def)
next
  case False
  have "fold (reduceRowCell i (min_element (d ! i))) [0..<length d] (d, zs)
     = (d[i := map (reduced (min_element (d ! i))) (d ! i)],
        zs @ map (\<lambda>j. ((i, j), (0, 0)))
            (filter (\<lambda>j. d ! i ! j \<noteq> INT_MAX \<and> sub32 (d ! i ! j) (min_element (d ! i)) = 0)
                    [0..<length d]))"
    using reduceRowCell_fold[OF i, of "length d" "min_element (d ! i)" zs] sq by simp
  then show ?thesis
    using False sq by (simp add: reduceRow_def reduceRowOf_def rowZeroes_def Let_def)
qed

lemma is_square_nth: "is_square d \<Longrightarrow> i < length d \<Longrightarrow> length (d ! i) = length d"
  by (simp add: is_square_def)

lemma reduceRow_fold:
  assumes sq: "is_square d"
  shows "k \<le> length d \<Longrightarrow>
     fold reduceRow [0..<k] (d, lb, zs)
       = (map reduceRowOf (take k d) @ drop k d,
          fold (\<lambda>i lb. if min_element (d ! i) = INT_MAX then lb
                        else add32 lb (min_element (d ! i))) [0..<k] lb,
          zs @ concat (map (\<lambda>i. rowZeroes i (d ! i)) [0..<k]))"
proof (induction k)
  case 0
  then show ?case by simp
next
  case (Suc k)
  let ?dk = "map reduceRowOf (take k d) @ drop k d"
  have k: "k < length d" using Suc.prems by simp
  have row: "?dk ! k = d ! k" using k by (rule nth_mapped_prefix)
  have k': "k < length ?dk" using k by simp
  have len: "length (?dk ! k) = length ?dk" unfolding row using is_square_nth[OF sq k] k by simp
  have upd: "?dk[k := reduceRowOf (d ! k)] = map reduceRowOf (take (Suc k) d) @ drop (Suc k) d"
    by (rule update_mapped_prefix[OF k])
  have "fold reduceRow [0..<Suc k] (d, lb, zs)
      = reduceRow k (fold reduceRow [0..<k] (d, lb, zs))" by simp
  also have "\<dots> = reduceRow k (?dk,
          fold (\<lambda>i lb. if min_element (d ! i) = INT_MAX then lb
                        else add32 lb (min_element (d ! i))) [0..<k] lb,
          zs @ concat (map (\<lambda>i. rowZeroes i (d ! i)) [0..<k]))"
    using Suc.IH k by simp
  finally show ?case
    by (simp only: reduceRow_eq[OF k' len] row upd) simp
qed

lemma running_min:
  fixes a :: "nat \<Rightarrow> int"
  shows "1 \<le> k \<Longrightarrow>
    (\<forall>i<k. fold (\<lambda>i m. if a i < m then a i else m) [1..<k] (a 0) \<le> a i)
    \<and> (\<exists>i<k. fold (\<lambda>i m. if a i < m then a i else m) [1..<k] (a 0) = a i)"
proof (induction k)
  case 0
  then show ?case by simp
next
  case (Suc k)
  show ?case
  proof (cases "k = 0")
    case True
    then show ?thesis by simp
  next
    case False
    let ?F = "fold (\<lambda>i m. if a i < m then a i else m) [1..<k] (a 0)"
    from False have k1: "1 \<le> k" by simp
    from Suc.IH[OF k1] have le: "\<forall>i<k. ?F \<le> a i" and mem: "\<exists>i<k. ?F = a i" by auto
    have step: "fold (\<lambda>i m. if a i < m then a i else m) [1..<Suc k] (a 0)
        = (if a k < ?F then a k else ?F)"
      using k1 by simp
    show ?thesis
    proof (cases "a k < ?F")
      case True
      then have "\<forall>i<Suc k. a k \<le> a i" using le by (auto simp: less_Suc_eq)
      then show ?thesis unfolding step using True by auto
    next
      case False
      then have "\<forall>i<Suc k. ?F \<le> a i" using le by (auto simp: less_Suc_eq)
      moreover have "\<exists>i<Suc k. ?F = a i" using mem less_Suc_eq by blast
      ultimately show ?thesis unfolding step using False by simp
    qed
  qed
qed

lemma columnMinimum_le: "i < length d \<Longrightarrow> columnMinimum d j \<le> d ! i ! j"
  using running_min[of "length d" "\<lambda>i. d ! i ! j"] by (auto simp: columnMinimum_def)

lemma columnMinimum_mem: "1 \<le> length d \<Longrightarrow> \<exists>i<length d. columnMinimum d j = d ! i ! j"
  using running_min[of "length d" "\<lambda>i. d ! i ! j"] by (auto simp: columnMinimum_def)

lemma columnMinimum_cong:
  assumes "length d = length d'" "\<forall>i<length d. d ! i ! j = d' ! i ! j" "1 \<le> length d"
  shows "columnMinimum d j = columnMinimum d' j"
proof -
  have "fold (\<lambda>i m. if d ! i ! j < m then d ! i ! j else m) [1..<length d] (d ! 0 ! j)
      = fold (\<lambda>i m. if d' ! i ! j < m then d' ! i ! j else m) [1..<length d] (d' ! 0 ! j)"
  proof (intro fold_cong)
    show "d ! 0 ! j = d' ! 0 ! j" using assms(2,3) by (simp add: Suc_le_eq)
  qed (use assms in auto)
  then show ?thesis using assms(1) by (simp add: columnMinimum_def)
qed

lemma min_element_Min: "xs \<noteq> [] \<Longrightarrow> min_element xs = Min (set xs)"
  by (cases xs) (simp_all add: min_element_def Min.set_eq_fold[symmetric])

lemma min_element_le: "x \<in> set xs \<Longrightarrow> min_element xs \<le> x"
  using min_element_Min[of xs] by (cases xs) auto

lemma min_element_mem: "xs \<noteq> [] \<Longrightarrow> min_element xs \<in> set xs"
  using min_element_Min[of xs] Min_in[of "set xs"] by simp

lemma reduceColumn_eq:
  assumes w: "\<forall>i<length d. j < length (d ! i)"
  shows "\<exists>ys. reduceColumn j (d, lb, zs)
     = ((if skipColumn d j then d
         else map (\<lambda>row. row[j := reduced (columnMinimum d j) (row ! j)]) d),
        (if skipColumn d j then lb else add32 lb (columnMinimum d j)),
        zs @ ys)"
proof (cases "skipColumn d j")
  case True
  then show ?thesis by (simp add: reduceColumn_def skipColumn_def)
next
  case False
  show ?thesis
    using False reduceColumnCell_fold[OF w, of "length d" "columnMinimum d j" zs]
    by (simp add: reduceColumn_def skipColumn_def Let_def)
qed

lemma reduceColumn_fold:
  assumes sq: "is_square d" and n: "1 \<le> length d"
  shows "k \<le> length d \<Longrightarrow>
     \<exists>d' ys. fold reduceColumn [0..<k] (d, lb, zs)
       = (d', fold (\<lambda>j lb. if skipColumn d j then lb else add32 lb (columnMinimum d j)) [0..<k] lb,
          zs @ ys) \<and> same_from k d d'"
proof (induction k)
  case 0
  then show ?case by (simp add: same_from_def)
next
  case (Suc k)
  let ?L = "fold (\<lambda>j lb. if skipColumn d j then lb else add32 lb (columnMinimum d j)) [0..<k] lb"
  have k: "k < length d" and k': "k \<le> length d" using Suc.prems by simp_all
  from Suc.IH[OF k'] obtain dk ys where
    f: "fold reduceColumn [0..<k] (d, lb, zs) = (dk, ?L, zs @ ys)" and s: "same_from k d dk"
    by blast
  have lens: "length dk = length d" "\<And>i. i < length d \<Longrightarrow> length (dk ! i) = length d"
    using s is_square_nth[OF sq] by (simp_all add: same_from_def)
  have w: "\<forall>i<length dk. k < length (dk ! i)" using lens k by simp
  have cm: "columnMinimum dk k = columnMinimum d k"
    using s n by (intro columnMinimum_cong) (auto simp: same_from_def)
  then have sk: "skipColumn dk k = skipColumn d k" by (simp add: skipColumn_def)
  from reduceColumn_eq[OF w, of ?L "zs @ ys"] obtain ys' where
    r: "reduceColumn k (dk, ?L, zs @ ys)
     = ((if skipColumn dk k then dk
         else map (\<lambda>row. row[k := reduced (columnMinimum dk k) (row ! k)]) dk),
        (if skipColumn dk k then ?L else add32 ?L (columnMinimum dk k)),
        (zs @ ys) @ ys')" by blast
  let ?d' = "if skipColumn dk k then dk
         else map (\<lambda>row. row[k := reduced (columnMinimum dk k) (row ! k)]) dk"
  have s': "same_from (Suc k) d ?d'"
    using s lens by (auto simp: same_from_def)
  have "fold reduceColumn [0..<Suc k] (d, lb, zs)
      = (?d', fold (\<lambda>j lb. if skipColumn d j then lb else add32 lb (columnMinimum d j)) [0..<Suc k] lb,
         zs @ (ys @ ys'))"
    using f r by (simp add: cm sk)
  then show ?case using s' by blast
qed

lemma bound_fold_wrap32:
  "wrap32 lb = lb \<Longrightarrow>
   fold (\<lambda>i lb. if P i then lb else add32 lb (m i)) [0..<k] lb
     = wrap32 (lb + (\<Sum>i<k. if P i then 0 else m i))"
proof (induction k)
  case 0
  then show ?case by simp
next
  case (Suc k)
  then show ?case by (simp add: add32_wrap32 add.assoc)
qed

section \<open>Branch and bound: the root node\<close>

lemma mset2_mset2: "mset2 (mset2 d i j a) i j b = mset2 d i j b"
  by (cases "i < length d") (simp_all add: mset2_def list_update_beyond)

lemma initDistancesCell_eq: "initDistancesCell g i j d = mset2 d i j (getEdgeParameter g i j)"
  by (simp add: initDistancesCell_def mset2_mset2)

lemma update_filled_prefix:
  "k < length r \<Longrightarrow> (map f [0..<k] @ drop k r)[k := f k] = map f [0..<Suc k] @ drop (Suc k) r"
proof -
  assume k: "k < length r"
  have "drop k r = r ! k # drop (Suc k) r" using k by (simp add: Cons_nth_drop_Suc)
  moreover have "length (map f [0..<k]) = k" by simp
  ultimately have "(map f [0..<k] @ drop k r)[k := f k] = map f [0..<k] @ f k # drop (Suc k) r"
    by (metis list_update_length)
  then show ?thesis by simp
qed

lemma initDistances_row:
  assumes i: "i < length d"
  shows "k \<le> length (d ! i) \<Longrightarrow>
    fold (initDistancesCell g i) [0..<k] d
      = d[i := map (getEdgeParameter g i) [0..<k] @ drop k (d ! i)]"
proof (induction k)
  case 0
  then show ?case by simp
next
  case (Suc k)
  have k: "k < length (d ! i)" using Suc.prems by simp
  have "fold (initDistancesCell g i) [0..<Suc k] d
      = initDistancesCell g i k (fold (initDistancesCell g i) [0..<k] d)" by simp
  also have "\<dots> = initDistancesCell g i k (d[i := map (getEdgeParameter g i) [0..<k] @ drop k (d ! i)])"
    using Suc.IH k by simp
  also have "\<dots> = mset2 (d[i := map (getEdgeParameter g i) [0..<k] @ drop k (d ! i)]) i k (getEdgeParameter g i k)"
    by (rule initDistancesCell_eq)
  also have "\<dots> = d[i := map (getEdgeParameter g i) [0..<Suc k] @ drop (Suc k) (d ! i)]"
    unfolding mset2_def using i update_filled_prefix[OF k, of "getEdgeParameter g i"] by simp
  finally show ?case .
qed

lemma initDistances_rows:
  assumes len: "\<forall>row \<in> set d. length row = n"
  shows "k \<le> length d \<Longrightarrow>
    fold (\<lambda>i. fold (initDistancesCell g i) [0..<n]) [0..<k] d
      = map (\<lambda>i. map (getEdgeParameter g i) [0..<n]) [0..<k] @ drop k d"
proof (induction k)
  case 0
  then show ?case by simp
next
  case (Suc k)
  let ?dk = "map (\<lambda>i. map (getEdgeParameter g i) [0..<n]) [0..<k] @ drop k d"
  have k: "k < length d" using Suc.prems by simp
  have k': "k < length ?dk" using k by simp
  have row: "?dk ! k = d ! k" using k by (simp add: nth_append)
  have rl: "length (d ! k) = n" using len k by simp
  have "fold (\<lambda>i. fold (initDistancesCell g i) [0..<n]) [0..<Suc k] d
      = fold (initDistancesCell g k) [0..<n] ?dk"
    using Suc.IH k by simp
  also have "\<dots> = ?dk[k := map (getEdgeParameter g k) [0..<n] @ drop n (?dk ! k)]"
    using initDistances_row[OF k', of n g] row rl by simp
  also have "\<dots> = ?dk[k := map (getEdgeParameter g k) [0..<n]]"
    using row rl by simp
  also have "\<dots> = map (\<lambda>i. map (getEdgeParameter g i) [0..<n]) [0..<Suc k] @ drop (Suc k) d"
    using update_filled_prefix[OF k, of "\<lambda>i. map (getEdgeParameter g i) [0..<n]"] by simp
  finally show ?case .
qed

lemma distances_initNode: "distances (initNode g) = weightMatrix g"
proof -
  let ?n = "getVertexCount g"
  have "fold (\<lambda>i. fold (initDistancesCell g i) [0..<?n]) [0..<?n] (replicate ?n (replicate ?n 0))
      = map (\<lambda>i. map (getEdgeParameter g i) [0..<?n]) [0..<?n]
          @ drop ?n (replicate ?n (replicate ?n 0))"
    by (rule initDistances_rows) simp_all
  then show ?thesis
    by (simp add: initNode_def newBBNodeData_def initDistances_def weightMatrix_def Let_def)
qed

lemma lowerBound_initNode: "lowerBound (initNode g) = 0"
  by (simp add: initNode_def newBBNodeData_def Let_def)

lemma edgesOnPath_initNode: "edgesOnPath (initNode g) = 0"
  by (simp add: initNode_def newBBNodeData_def Let_def)

lemma weightMatrix_nth:
  "i < getVertexCount g \<Longrightarrow> j < getVertexCount g \<Longrightarrow> weightMatrix g ! i ! j = getEdgeParameter g i j"
  by (simp add: weightMatrix_def)

lemma length_weightMatrix: "length (weightMatrix g) = getVertexCount g"
  by (simp add: weightMatrix_def)

lemma weightMatrix_row:
  "i < getVertexCount g \<Longrightarrow> weightMatrix g ! i = map (getEdgeParameter g i) [0..<getVertexCount g]"
  by (simp add: weightMatrix_def)

lemma is_square_weightMatrix: "is_square (weightMatrix g)"
  by (auto simp: is_square_def weightMatrix_def)

lemma rowsReachSize_weightMatrix: "rowsReachSize (weightMatrix g)"
  by (auto simp: rowsReachSize_def weightMatrix_def)

lemma is_square_reduced: "is_square d \<Longrightarrow> is_square (map reduceRowOf d)"
  by (auto simp: is_square_def reduceRowOf_def)

text \<open>The parts of the root reduction.\<close>

lemma bbReduce_root:
  assumes n: "1 \<le> getVertexCount g"
  shows "\<exists>d' ys. bbReduce (initNode g)
    = (d',
       wrap32 ((\<Sum>i<getVertexCount g. rowBound (weightMatrix g ! i))
             + (\<Sum>j<getVertexCount g. columnBound (map reduceRowOf (weightMatrix g)) j)),
       map (zeroPenalties d')
         (concat (map (\<lambda>i. rowZeroes i (weightMatrix g ! i)) [0..<getVertexCount g]) @ ys))"
proof -
  let ?n = "getVertexCount g" and ?M = "weightMatrix g"
  let ?d1 = "map reduceRowOf ?M"
  let ?z1 = "concat (map (\<lambda>i. rowZeroes i (?M ! i)) [0..<?n])"
  let ?l1 = "wrap32 (\<Sum>i<?n. if min_element (?M ! i) = INT_MAX then 0 else min_element (?M ! i))"
  have w0: "wrap32 0 = 0" by (simp add: wrap32_def)
  have rows: "fold reduceRow [0..<?n] (?M, 0, []) = (?d1, ?l1, ?z1)"
    using reduceRow_fold[OF is_square_weightMatrix, of ?n g 0 "[]"]
      bound_fold_wrap32[OF w0, of "\<lambda>i. min_element (?M ! i) = INT_MAX" "\<lambda>i. min_element (?M ! i)" ?n]
    by (simp add: length_weightMatrix)
  have sq1: "is_square ?d1" by (rule is_square_reduced[OF is_square_weightMatrix])
  have n1: "1 \<le> length ?d1" "?n \<le> length ?d1" using n by (simp_all add: length_weightMatrix)
  have w1: "wrap32 ?l1 = ?l1" by (simp add: wrap32_def)
  from reduceColumn_fold[OF sq1 n1(1) n1(2), of ?l1 ?z1] obtain d' ys where
    cols: "fold reduceColumn [0..<?n] (?d1, ?l1, ?z1)
       = (d', fold (\<lambda>j lb. if skipColumn ?d1 j then lb else add32 lb (columnMinimum ?d1 j)) [0..<?n] ?l1,
          ?z1 @ ys)" by blast
  have l2: "fold (\<lambda>j lb. if skipColumn ?d1 j then lb else add32 lb (columnMinimum ?d1 j)) [0..<?n] ?l1
      = wrap32 (?l1 + (\<Sum>j<?n. columnBound ?d1 j))"
    using bound_fold_wrap32[OF w1, of "skipColumn ?d1" "columnMinimum ?d1" ?n]
    by (simp add: columnBound_def)
  have l3: "wrap32 (?l1 + (\<Sum>j<?n. columnBound ?d1 j))
      = wrap32 ((\<Sum>i<?n. rowBound (?M ! i)) + (\<Sum>j<?n. columnBound ?d1 j))"
    by (simp add: wrap32_add_left rowBound_def)
  have "bbReduce (initNode g)
      = (d', wrap32 ((\<Sum>i<?n. rowBound (?M ! i)) + (\<Sum>j<?n. columnBound ?d1 j)),
         map (zeroPenalties d') (?z1 @ ys))"
    by (simp add: bbReduce_def distances_initNode lowerBound_initNode length_weightMatrix
        rows cols l2 l3 Let_def)
  then show ?thesis by blast
qed

lemma rowZeroes_nonempty:
  assumes "row \<noteq> []" "min_element row \<noteq> INT_MAX"
  shows "rowZeroes i row \<noteq> []"
proof -
  from min_element_mem[OF assms(1)] obtain j where j: "j < length row" "row ! j = min_element row"
    by (auto simp: in_set_conv_nth)
  then have "j \<in> set (filter (\<lambda>j. row ! j \<noteq> INT_MAX \<and> sub32 (row ! j) (min_element row) = 0)
                    [0..<length row])"
    using assms(2) by (simp add: sub32_self)
  then have "filter (\<lambda>j. row ! j \<noteq> INT_MAX \<and> sub32 (row ! j) (min_element row) = 0)
                    [0..<length row] \<noteq> []"
    by (metis empty_iff list.set(1))
  then show ?thesis using assms(2) by (simp add: rowZeroes_def)
qed

lemma root_zeroes_nonempty:
  assumes n: "1 \<le> getVertexCount g"
    and fin: "\<forall>j<getVertexCount g. getEdgeParameter g 0 j \<noteq> INT_MAX"
  shows "snd (snd (bbReduce (initNode g))) \<noteq> []"
proof -
  let ?n = "getVertexCount g" and ?M = "weightMatrix g"
  have r0: "?M ! 0 = map (getEdgeParameter g 0) [0..<?n]" using n by (simp add: weightMatrix_row)
  then have ne: "?M ! 0 \<noteq> []" using n by simp
  have "min_element (?M ! 0) \<in> set (?M ! 0)" by (rule min_element_mem[OF ne])
  then have "min_element (?M ! 0) \<noteq> INT_MAX" unfolding r0 using fin by auto
  then have z: "rowZeroes 0 (?M ! 0) \<noteq> []" by (rule rowZeroes_nonempty[OF ne])
  have "[0..<?n] = 0 # [1..<?n]" using n by (simp add: upt_conv_Cons)
  then have "concat (map (\<lambda>i. rowZeroes i (?M ! i)) [0..<?n]) \<noteq> []" using z by simp
  then show ?thesis using bbReduce_root[OF n] by auto
qed

lemma root_reduction_returns:
  assumes n: "1 \<le> getVertexCount g"
    and fin: "\<forall>j<getVertexCount g. getEdgeParameter g 0 j \<noteq> INT_MAX"
  shows "\<exists>root. bbCalculateLowerBoundAndDesignateHighestZeroPenalty (initNode g) = Inr root
     \<and> lowerBound root = fst (snd (bbReduce (initNode g)))
     \<and> edgesOnPath root = 0"
proof -
  obtain d lb zs where r: "bbReduce (initNode g) = (d, lb, zs)" by (metis prod_cases3)
  have "zs \<noteq> []" using root_zeroes_nonempty[OF n fin] r by simp
  then obtain z where "max_element zs = Some z" by (cases zs) (auto simp: max_element_def)
  then show ?thesis
    using r by (simp add: bbCalculateLowerBoundAndDesignateHighestZeroPenalty_def
        distances_initNode rowsReachSize_weightMatrix edgesOnPath_initNode)
qed

section \<open>Branch and bound: the root bound and the tours\<close>

lemma potentials_le_path_cost:
  assumes ab: "\<And>x y. x < n \<Longrightarrow> y < n \<Longrightarrow> x \<noteq> y \<Longrightarrow> a x + b y \<le> w x y"
  shows "distinct_adj xs \<Longrightarrow> set xs \<subseteq> {..<n}
     \<Longrightarrow> sum_list (map a (butlast xs)) + sum_list (map b (tl xs)) \<le> path_cost w xs"
proof (induction xs rule: induct_list012)
  case 1
  then show ?case by simp
next
  case (2 x)
  then show ?case by simp
next
  case (3 x y xs)
  from "3.prems" have xy: "x < n" "y < n" "x \<noteq> y"
    and da: "distinct_adj (y # xs)" and ss: "set (y # xs) \<subseteq> {..<n}" by auto
  have "sum_list (map a (butlast (y # xs))) + sum_list (map b (tl (y # xs))) \<le> path_cost w (y # xs)"
    by (rule "3.IH"(2)[OF da ss])
  moreover have "a x + b y \<le> w x y" by (rule ab[OF xy])
  ultimately show ?case by simp
qed

lemma closed_tour_distinct_adj:
  assumes d: "distinct (v # p)" and pne: "p \<noteq> []"
  shows "distinct_adj ([v] @ p @ [v])"
proof -
  have a: "distinct_adj (v # p)" by (rule distinct_imp_distinct_adj[OF d])
  have "last p \<in> set p" using pne by simp
  then have b: "last (v # p) \<noteq> v" using pne d by auto
  have "distinct_adj ((v # p) @ [v])
      \<longleftrightarrow> distinct_adj (v # p) \<and> distinct_adj [v]
          \<and> (v # p = [] \<or> [v] = [] \<or> last (v # p) \<noteq> hd [v])"
    by (rule distinct_adj_append_iff)
  then have "distinct_adj ((v # p) @ [v])" using a b by simp
  then show ?thesis by simp
qed

lemma potentials_le_tour_cost:
  assumes ab: "\<And>x y. x < getVertexCount g \<Longrightarrow> y < getVertexCount g \<Longrightarrow> x \<noteq> y
                 \<Longrightarrow> a x + b y \<le> getEdgeParameter g x y"
    and n: "2 \<le> getVertexCount g" and p: "p \<in> tours g"
  shows "(\<Sum>i<getVertexCount g. a i) + (\<Sum>j<getVertexCount g. b j) \<le> tour_cost g p"
proof -
  let ?n = "getVertexCount g" and ?o = "getVertexCount g - 1"
  have dp: "distinct p" and sp: "set p = {0..<?o}" using p by (simp_all add: tours_def)
  have d1: "distinct (?o # p)" using dp sp by simp
  have s1: "set (?o # p) = {..<?n}" using sp n by auto
  have d2: "distinct (p @ [?o])" using dp sp by simp
  have s2: "set (p @ [?o]) = {..<?n}" using sp n by auto
  have pne: "p \<noteq> []" using n p by (rule tour_nonempty)
  let ?t = "[?o] @ p @ [?o]"
  have da: "distinct_adj ?t" by (rule closed_tour_distinct_adj[OF d1 pne])
  have ss: "set ?t \<subseteq> {..<?n}" using s1 by auto
  have bl: "butlast ?t = ?o # p" by (simp add: butlast_append)
  have tl: "tl ?t = p @ [?o]" by simp
  have "sum_list (map a (?o # p)) + sum_list (map b (p @ [?o])) \<le> path_cost (getEdgeParameter g) ?t"
    using potentials_le_path_cost[OF ab da ss] unfolding bl tl by simp
  moreover have "sum_list (map a (?o # p)) = (\<Sum>i<?n. a i)"
    using sum_list_distinct_conv_sum_set[OF d1, of a] s1 by simp
  moreover have "sum_list (map b (p @ [?o])) = (\<Sum>j<?n. b j)"
    using sum_list_distinct_conv_sum_set[OF d2, of b] s2 by simp
  ultimately show ?thesis by (simp add: tour_cost_def)
qed

lemma natural_tour: "[0..<getVertexCount g - 1] \<in> tours g"
  by (simp add: tours_def)

lemma tour_cost_le_INT_MAX:
  assumes wf: "well_formed g" and p: "p \<in> tours g"
  shows "tour_cost g p \<le> INT_MAX"
proof -
  let ?n = "getVertexCount g" and ?o = "getVertexCount g - 1"
  have n: "2 \<le> ?n" using wf by (simp add: well_formed_def)
  have dp: "distinct p" and sp: "set p = {0..<?o}" using p by (simp_all add: tours_def)
  have d1: "distinct (?o # p)" using dp sp by simp
  have pne: "p \<noteq> []" using n p by (rule tour_nonempty)
  let ?t = "[?o] @ p @ [?o]"
  have da: "distinct_adj ?t" by (rule closed_tour_distinct_adj[OF d1 pne])
  have ss: "set ?t \<subseteq> {..<?n}" using sp n by auto
  have "length p = ?o" using distinct_card[OF dp] sp by simp
  then have len: "length ?t \<le> ?n + 1" using n by simp
  show ?thesis unfolding tour_cost_def by (rule path_cost_le_INT_MAX[OF wf da ss len])
qed

lemma reduced_row_nth:
  assumes i: "i < getVertexCount g" and j: "j < getVertexCount g"
  shows "map reduceRowOf (weightMatrix g) ! i ! j
     = (if min_element (weightMatrix g ! i) = INT_MAX then getEdgeParameter g i j
        else reduced (min_element (weightMatrix g ! i)) (getEdgeParameter g i j))"
  using i j by (simp add: length_weightMatrix reduceRowOf_def weightMatrix_row)

lemma root_bound_le_tour:
  assumes wf: "well_formed g" and dg: "diagonal_in_range g" and p: "p \<in> tours g"
  shows "wrap32 ((\<Sum>i<getVertexCount g. rowBound (weightMatrix g ! i))
             + (\<Sum>j<getVertexCount g. columnBound (map reduceRowOf (weightMatrix g)) j))
         \<le> tour_cost g p"
proof -
  let ?n = "getVertexCount g" and ?M = "weightMatrix g" and ?w = "getEdgeParameter g"
  let ?d1 = "map reduceRowOf ?M"
  define m where "m i = min_element (?M ! i)" for i
  have n2: "2 \<le> ?n" using wf by (simp add: well_formed_def)
  have off: "0 \<le> ?w i j \<and> 2 * ?w i j \<le> INT_MAX" if "i < ?n" "j < ?n" "i \<noteq> j" for i j
  proof -
    from wf that have a: "0 \<le> ?w i j" "int ?n * ?w i j \<le> INT_MAX" by (auto simp: well_formed_def)
    have "2 * ?w i j \<le> int ?n * ?w i j" using a(1) n2 by (intro mult_right_mono) auto
    then show ?thesis using a by simp
  qed
  have diag: "- INT_MAX \<le> 2 * ?w i i \<and> ?w i i \<le> INT_MAX \<and> - INT_MAX \<le> int ?n * ?w i i"
    if "i < ?n" for i
  proof -
    from dg that have a: "- INT_MAX \<le> int ?n * ?w i i" "?w i i \<le> INT_MAX"
      by (auto simp: diagonal_in_range_def)
    have "- INT_MAX \<le> 2 * ?w i i"
    proof (cases "0 \<le> ?w i i")
      case True
      then show ?thesis by (simp add: INT_MAX_def)
    next
      case False
      then have "int ?n * ?w i i \<le> 2 * ?w i i" using n2 by (intro mult_right_mono_neg) auto
      then show ?thesis using a(1) by simp
    qed
    then show ?thesis using a by simp
  qed
  have m_le: "m i \<le> ?w i j" if "i < ?n" "j < ?n" for i j
    unfolding m_def using that by (intro min_element_le) (simp add: weightMatrix_row)
  have m_mem: "\<exists>j<?n. m i = ?w i j" if "i < ?n" for i
  proof -
    have "?M ! i \<noteq> []" using that by (simp add: weightMatrix_row)
    from min_element_mem[OF this] show ?thesis
      unfolding m_def using that by (auto simp: weightMatrix_row)
  qed
  have m_lo: "- INT_MAX \<le> 2 * m i \<and> - INT_MAX \<le> int ?n * m i" if "i < ?n" for i
  proof -
    from m_mem[OF that] obtain j where j: "j < ?n" "m i = ?w i j" by blast
    show ?thesis
    proof (cases "j = i")
      case True
      then show ?thesis using diag[OF that] j by simp
    next
      case False
      then have "0 \<le> m i" using off[OF that j(1)] j(2) by simp
      then have "0 \<le> int ?n * m i" "0 \<le> 2 * m i" by simp_all
      then show ?thesis unfolding INT_MAX_def by linarith
    qed
  qed
  have m_neg: "m i = ?w i i" if "i < ?n" "m i < 0" for i
  proof -
    from m_mem[OF that(1)] obtain j where j: "j < ?n" "m i = ?w i j" by blast
    have "j = i" using off[OF that(1) j(1)] j(2) that(2) by force
    then show ?thesis using j by simp
  qed
  have m_hi: "2 * m i \<le> INT_MAX" if "i < ?n" for i
  proof -
    define j where "j = (if i = 0 then 1 else 0::nat)"
    have j: "j < ?n" "j \<noteq> i" using n2 by (simp_all add: j_def)
    have "m i \<le> ?w i j" by (rule m_le[OF that j(1)])
    then show ?thesis using off[OF that j(1)] j(2) by force
  qed
  have m_fin: "m i \<noteq> INT_MAX" if "i < ?n" for i
    using m_hi[OF that] by (auto simp: INT_MAX_def)
  have rb: "rowBound (?M ! i) = m i" if "i < ?n" for i
    using m_fin[OF that] by (simp add: rowBound_def m_def)
  have d1: "?d1 ! i ! j = reduced (m i) (?w i j)" if "i < ?n" "j < ?n" for i j
    using reduced_row_nth[OF that] m_fin[OF that(1)] by (simp add: m_def)
  have d1_off: "?d1 ! i ! j = ?w i j - m i" if "i < ?n" "j < ?n" "i \<noteq> j" for i j
  proof -
    have "?w i j \<noteq> INT_MAX" using off[OF that] by (auto simp: INT_MAX_def)
    moreover have "0 \<le> ?w i j - m i" using m_le[OF that(1,2)] by simp
    moreover have "?w i j - m i \<le> INT_MAX" using off[OF that] m_lo[OF that(1)] by linarith
    ultimately show ?thesis
      unfolding d1[OF that(1,2)] by (simp add: reduced_def sub32_eq)
  qed
  have d1_nonneg: "0 \<le> ?d1 ! i ! j" if "i < ?n" "j < ?n" for i j
  proof (cases "i = j")
    case False
    then show ?thesis using d1_off[OF that] m_le[OF that] by simp
  next
    case True
    show ?thesis
    proof (cases "?w i i = INT_MAX")
      case t: True
      then show ?thesis unfolding d1[OF that] using True by (simp add: reduced_def INT_MAX_def)
    next
      case f: False
      have lo: "0 \<le> ?w i i - m i" using m_le[OF that(1) that(1)] by simp
      have hi: "?w i i - m i \<le> INT_MAX"
      proof (cases "m i < 0")
        case True
        then show ?thesis using m_neg[OF that(1)] by (simp add: INT_MAX_def)
      next
        case False
        then show ?thesis using diag[OF that(1)] by simp
      qed
      show ?thesis
        unfolding d1[OF that] using True f lo hi by (simp add: reduced_def sub32_eq)
    qed
  qed
  have len1: "length ?d1 = ?n" by (simp add: length_weightMatrix)
  have cm_le: "columnMinimum ?d1 j \<le> ?d1 ! i ! j" if "i < ?n" for i j
    using columnMinimum_le[of i ?d1 j] that len1 by simp
  have cm_nonneg: "0 \<le> columnMinimum ?d1 j" if "j < ?n" for j
  proof -
    have "1 \<le> length ?d1" using n2 len1 by simp
    from columnMinimum_mem[OF this, of j] obtain i where "i < ?n" "columnMinimum ?d1 j = ?d1 ! i ! j"
      using len1 by auto
    then show ?thesis using d1_nonneg[OF _ that] by simp
  qed
  have cb_nonneg: "0 \<le> columnBound ?d1 j" if "j < ?n" for j
    using cm_nonneg[OF that] by (simp add: columnBound_def)
  have cb_le: "columnBound ?d1 j \<le> ?d1 ! i ! j" if "i < ?n" "j < ?n" for i j
    using cm_le[OF that(1), of j] d1_nonneg[OF that] by (simp add: columnBound_def)
  have pot: "rowBound (?M ! i) + columnBound ?d1 j \<le> ?w i j" if "i < ?n" "j < ?n" "i \<noteq> j" for i j
    using rb[OF that(1)] cb_le[OF that(1,2)] d1_off[OF that] by simp
  let ?S = "(\<Sum>i<?n. rowBound (?M ! i)) + (\<Sum>j<?n. columnBound ?d1 j)"
  have up: "?S \<le> tour_cost g p" if "p \<in> tours g" for p
    using potentials_le_tour_cost[of g "\<lambda>i. rowBound (?M ! i)" "columnBound ?d1", OF pot n2 that] .
  have "?S \<le> INT_MAX"
    using up[OF natural_tour] tour_cost_le_INT_MAX[OF wf natural_tour] by simp
  moreover have "- 2147483648 \<le> ?S"
  proof -
    have "(\<Sum>i<?n. - INT_MAX) \<le> (\<Sum>i<?n. int ?n * rowBound (?M ! i))"
      using m_lo rb by (intro sum_mono) simp
    then have "int ?n * (- INT_MAX) \<le> int ?n * (\<Sum>i<?n. rowBound (?M ! i))"
      by (simp add: sum_distrib_left)
    moreover have "0 < int ?n" using n2 by simp
    ultimately have "- INT_MAX \<le> (\<Sum>i<?n. rowBound (?M ! i))"
      by (rule mult_left_le_imp_le)
    moreover have "0 \<le> (\<Sum>j<?n. columnBound ?d1 j)"
      using cb_nonneg by (intro sum_nonneg) simp
    ultimately show ?thesis by (simp add: INT_MAX_def)
  qed
  ultimately have "wrap32 ?S = ?S" by (simp add: wrap32_id)
  then show ?thesis using up[OF p] by simp
qed

lemma min_tour_cost_ge:
  assumes "2 \<le> getVertexCount g" "\<And>p. p \<in> tours g \<Longrightarrow> x \<le> tour_cost g p"
  shows "x \<le> min_tour_cost g"
proof -
  have "tours g \<noteq> {}" using natural_tour by blast
  then show ?thesis
    unfolding min_tour_cost_def using assms(2) finite_tours[of g] by (subst Min_ge_iff) auto
qed

lemma root_lower_bound:
  assumes wf: "well_formed g" and dg: "diagonal_in_range g"
  shows "\<exists>root. bbCalculateLowerBoundAndDesignateHighestZeroPenalty (initNode g) = Inr root
     \<and> lowerBound root \<le> min_tour_cost g"
proof -
  let ?n = "getVertexCount g"
  have n2: "2 \<le> ?n" using wf by (simp add: well_formed_def)
  then have n1: "1 \<le> ?n" by simp
  from bbReduce_root[OF n1] obtain d' ys where
    r: "bbReduce (initNode g)
    = (d',
       wrap32 ((\<Sum>i<?n. rowBound (weightMatrix g ! i))
             + (\<Sum>j<?n. columnBound (map reduceRowOf (weightMatrix g)) j)),
       map (zeroPenalties d')
         (concat (map (\<lambda>i. rowZeroes i (weightMatrix g ! i)) [0..<?n]) @ ys))" by blast
  have m0: "min_element (weightMatrix g ! 0) \<noteq> INT_MAX"
  proof -
    have le: "min_element (weightMatrix g ! 0) \<le> getEdgeParameter g 0 1"
      using n2 by (intro min_element_le) (simp add: weightMatrix_row)
    from wf n2 have "int ?n * getEdgeParameter g 0 1 \<le> INT_MAX" "0 \<le> getEdgeParameter g 0 1"
      by (auto simp: well_formed_def)
    moreover have "2 * getEdgeParameter g 0 1 \<le> int ?n * getEdgeParameter g 0 1"
      using calculation(2) n2 by (intro mult_right_mono) auto
    ultimately show ?thesis using le by (auto simp: INT_MAX_def)
  qed
  have ne: "weightMatrix g ! 0 \<noteq> []" using n1 by (simp add: weightMatrix_row)
  have z: "rowZeroes 0 (weightMatrix g ! 0) \<noteq> []" by (rule rowZeroes_nonempty[OF ne m0])
  have "[0..<?n] = 0 # [1..<?n]" using n1 by (simp add: upt_conv_Cons)
  then have "concat (map (\<lambda>i. rowZeroes i (weightMatrix g ! i)) [0..<?n]) \<noteq> []" using z by simp
  then have "snd (snd (bbReduce (initNode g))) \<noteq> []" unfolding r by simp
  then obtain z' where "max_element (snd (snd (bbReduce (initNode g)))) = Some z'"
    by (cases "snd (snd (bbReduce (initNode g)))") (auto simp: max_element_def)
  then have "\<exists>root. bbCalculateLowerBoundAndDesignateHighestZeroPenalty (initNode g) = Inr root
     \<and> lowerBound root = fst (snd (bbReduce (initNode g)))"
    by (simp add: bbCalculateLowerBoundAndDesignateHighestZeroPenalty_def
        distances_initNode rowsReachSize_weightMatrix case_prod_beta)
  then obtain root where root: "bbCalculateLowerBoundAndDesignateHighestZeroPenalty (initNode g) = Inr root"
    "lowerBound root = fst (snd (bbReduce (initNode g)))" by blast
  have "lowerBound root \<le> tour_cost g p" if "p \<in> tours g" for p
    unfolding root(2) r using root_bound_le_tour[OF wf dg that] by simp
  then have "lowerBound root \<le> min_tour_cost g" by (rule min_tour_cost_ge[OF n2])
  then show ?thesis using root(1) by blast
qed

section \<open>Branch and bound: the loop\<close>



lemma bbLoop_step:
  "bbNext n (leafs, ub) = Some (leafs', ub') \<Longrightarrow> bbLoop n leafs ub = bbLoop n leafs' ub'"
  by (subst bbLoop.simps) (auto simp: bbNext_def split: option.splits if_splits)



text \<open>
  With the two node constructors empty, every node of the queue is a copy of the root.
  For three vertices or more no node ever has \<open>n - 2\<close> edges on its path: when the root
  bound is below the first upper bound the loop never ends.
\<close>

lemma pq_top_mem: "pq_top leafs = Some t \<Longrightarrow> t \<in> set leafs"
proof -
  have "fold (\<lambda>y largest. if bbNodeComparator largest y then y else largest) xs x \<in> set (x # xs)"
    for x and xs :: "BBNodeData list"
    by (induction xs arbitrary: x) auto
  then show "pq_top leafs = Some t \<Longrightarrow> t \<in> set leafs"
    by (cases leafs) (auto simp: pq_top_def)
qed

lemma bbLoop_diverges_aux:
  assumes run: "bbLoop n leafs ub = Some y"
  shows "\<not> (3 \<le> n \<and> leafs \<noteq> []
           \<and> (\<forall>x \<in> set leafs. lowerBound x < ub \<and> edgesOnPath x = 0))"
proof (rule bbLoop.raw_induct[where P = "\<lambda>n leafs ub y. \<not> (3 \<le> n \<and> leafs \<noteq> []
           \<and> (\<forall>x \<in> set leafs. lowerBound x < ub \<and> edgesOnPath x = 0))", OF _ run], goal_cases)
  case (1 bbLoop' n leafs ub y)
  show ?case
  proof
    assume inv: "3 \<le> n \<and> leafs \<noteq> [] \<and> (\<forall>x \<in> set leafs. lowerBound x < ub \<and> edgesOnPath x = 0)"
    then obtain t where t: "pq_top leafs = Some t" by (cases leafs) (auto simp: pq_top_def)
    have tin: "t \<in> set leafs" by (rule pq_top_mem[OF t])
    then have tl: "lowerBound t < ub" "edgesOnPath t = 0" using inv by auto
    define leafs' where "leafs' = pq_push t (pq_push t (pq_pop leafs))"
    have it: "bbIteration n leafs t ub = (leafs', ub)"
      using tl inv by (simp add: bbIteration_def bbCreateLeftNodeData_def bbCreateRightNodeData_def
          Let_def leafs'_def)
    have "set (pq_pop leafs) \<subseteq> set leafs"
      using t set_remove1_subset[of t leafs] by (simp add: pq_pop_def)
    then have inv': "3 \<le> n \<and> leafs' \<noteq> [] \<and> (\<forall>x \<in> set leafs'. lowerBound x < ub \<and> edgesOnPath x = 0)"
      using inv tl by (auto simp: leafs'_def pq_push_def)
    from 1(2) have "bbLoop' n leafs' ub = Some y"
      using t tl it by simp
    from 1(1)[OF this] inv' show False by blast
  qed
qed

lemma branchAndBound_diverges:
  assumes n: "3 \<le> getVertexCount g"
    and root: "bbCalculateLowerBoundAndDesignateHighestZeroPenalty (initNode g) = Inr root"
    and lt: "lowerBound root < initialUpperBound g"
  shows "branchAndBound g = None"
proof -
  have e: "edgesOnPath root = 0"
    using root by (auto simp: bbCalculateLowerBoundAndDesignateHighestZeroPenalty_def
        edgesOnPath_initNode case_prod_beta split: if_splits option.splits)
  have "bbLoop (getVertexCount g) [root] (initialUpperBound g) \<noteq> Some y" for y
    using bbLoop_diverges_aux[of "getVertexCount g" "[root]" "initialUpperBound g" y] n lt e by auto
  then have "bbLoop (getVertexCount g) [root] (initialUpperBound g) = None"
    by (cases "bbLoop (getVertexCount g) [root] (initialUpperBound g)") auto
  then show ?thesis by (simp add: branchAndBound_def root)
qed

section \<open>The example graphs, evaluated\<close>

lemma less_4_cases: "(i::nat) < 4 \<longleftrightarrow> i = 0 \<or> i = 1 \<or> i = 2 \<or> i = 3"
  by auto



lemma well_formed_example_4: "well_formed example_graph_4"
  by (auto simp: well_formed_def example_graph_4_def INT_MAX_def less_4_cases)

lemma well_formed_example_33: "well_formed example_graph_33"
  by (simp add: well_formed_def example_graph_33_def INT_MAX_def)

lemma diagonal_example_4: "diagonal_in_range example_graph_4"
  by (auto simp: diagonal_in_range_def example_graph_4_def INT_MAX_def less_4_cases)

lemma hk_example_2: "dynamicProgrammingHeldKarp example_graph_2 = Inr 7"
  by (simp add: dynamicProgrammingHeldKarp_def dynamicProgrammingHeldKarpRun_def example_graph_2_def
      hkEndVertexStep_def dpGetPartialPathCost.simps initialTable_def bit_of_def add32_def
      wrap32_def INT_MAX_def)

lemma hk_example_33: "dynamicProgrammingHeldKarp example_graph_33 = Inl ShiftOutOfRange"
  by (simp add: dynamicProgrammingHeldKarp_def dynamicProgrammingHeldKarpRun_def example_graph_33_def)

lemma bf_example_2: "bruteForceRun \<lparr> getVertexCount = 2, getEdgeParameter = w \<rparr> = Some (Inl IndexOutOfRange)"
  by (simp add: bruteForceRun_def bruteForceLoop.simps)



lemma ub_example_4: "initialUpperBound example_graph_4 = 95"
  by code_simp

lemma hk_example_4: "dynamicProgrammingHeldKarp example_graph_4 = Inr 80"
  by code_simp

lemma bf_example_4: "bruteForce example_graph_4 = Some (Inr 80)"
  by code_simp

lemma bf_visited_example_4:
  "map_option (map_sum id snd) (bruteForceRun example_graph_4)
     = Some (Inr [[0, 1, 2], [1, 0, 2], [2, 0, 1], [0, 2, 1], [1, 2, 0], [2, 1, 0]])"
  by code_simp

lemma bb_example_2: "branchAndBound example_graph_2 = Some (Inr 0)"
  by code_simp

lemma min_tour_cost_example_4: "min_tour_cost example_graph_4 = 80"
proof -
  have n: "getVertexCount example_graph_4 \<le> 32" by (simp add: example_graph_4_def)
  have "Inr (held_karp_answer example_graph_4) = (Inr 80 :: error + int)"
    using dynamicProgrammingHeldKarp_correct[OF well_formed_example_4 n] hk_example_4 by simp
  moreover have "held_karp_answer example_graph_4 = min_tour_cost example_graph_4"
    by (rule held_karp_answer_is_min) (simp add: example_graph_4_def)
  ultimately show ?thesis by simp
qed

lemma less_3_cases: "(i::nat) < 3 \<longleftrightarrow> i = 0 \<or> i = 1 \<or> i = 2"
  by auto

lemma well_formed_example_3: "well_formed example_graph_3"
  by (auto simp: well_formed_def example_graph_3_def INT_MAX_def less_3_cases)

lemma diagonal_example_3: "\<not> diagonal_in_range example_graph_3"
  by (auto simp: diagonal_in_range_def example_graph_3_def INT_MAX_def intro: exI[of _ 0])

lemma hk_example_3: "dynamicProgrammingHeldKarp example_graph_3 = Inr 3"
  by code_simp

lemma min_tour_cost_example_3: "min_tour_cost example_graph_3 = 3"
proof -
  have n: "getVertexCount example_graph_3 \<le> 32" by (simp add: example_graph_3_def)
  have "Inr (held_karp_answer example_graph_3) = (Inr 3 :: error + int)"
    using dynamicProgrammingHeldKarp_correct[OF well_formed_example_3 n] hk_example_3 by simp
  moreover have "held_karp_answer example_graph_3 = min_tour_cost example_graph_3"
    by (rule held_karp_answer_is_min) (simp add: example_graph_3_def)
  ultimately show ?thesis by simp
qed

lemma row_minima_example_3:
  "fold reduceRow [0..<2] (distances (initNode example_graph_3), 0, [])
     = ([[0, 1073741825, 1073741825], [1073741825, 0, 1073741825], [1, 1, - 1073741824]],
        - 2147483648, [((0, 0), (0, 0)), ((1, 1), (0, 0))])"
  by code_simp

lemma bb_root_example_3:
  "bbCalculateLowerBoundAndDesignateHighestZeroPenalty (initNode example_graph_3)
     = Inr \<lparr> distances = [[0, 1073741825, 1073741825], [1073741825, 0, 1073741825],
                          [1073741825, 1073741825, 0]],
             lowerBound = 1073741824, edgesOnPath = 0,
             highestZeroPenaltiesIndexes = (0, 0),
             highestZeroPenalties = (1073741825, 1073741825) \<rparr>"
  by code_simp

lemma bb_root_example_3_inf:
  "bbCalculateLowerBoundAndDesignateHighestZeroPenalty (initNode example_graph_3_inf)
     = Inr \<lparr> distances = [[2147483647, 0, 0], [0, 2147483647, 0], [0, 0, 2147483647]],
             lowerBound = 3, edgesOnPath = 0,
             highestZeroPenaltiesIndexes = (0, 1),
             highestZeroPenalties = (0, 0) \<rparr>"
  by code_simp

lemma branchAndBound_never_returns:
  assumes wf: "well_formed g" and dg: "diagonal_in_range g" and n: "3 \<le> getVertexCount g"
    and lt: "min_tour_cost g < initialUpperBound g"
  shows "branchAndBound g = None"
proof -
  from root_lower_bound[OF wf dg] obtain root where
    r: "bbCalculateLowerBoundAndDesignateHighestZeroPenalty (initNode g) = Inr root"
      "lowerBound root \<le> min_tour_cost g" by blast
  then have "lowerBound root < initialUpperBound g" using lt by simp
  then show ?thesis by (rule branchAndBound_diverges[OF n r(1)])
qed

lemma bb_example_4: "branchAndBound example_graph_4 = None"
  by (rule branchAndBound_never_returns[OF well_formed_example_4 diagonal_example_4])
     (simp_all add: min_tour_cost_example_4 ub_example_4, simp add: example_graph_4_def)


lemma pq_top_example_2: "pq_top [example_root_2] = Some example_root_2"
  by (simp add: pq_top_def)

lemma example_call_rel:
  "dpGetPartialPathCost_dpVertexLoop_rel
     (Inr (example_graph_4, 7 AND NOT (bit_of 0), 0, 0, INT_MAX, example_state_4))
     (Inl (example_graph_4, 7, 0, example_state_4))"
  by (rule dpGetPartialPathCost_dpVertexLoop_rel.intros(1))
     (simp_all add: example_state_4_def initialTable_def example_graph_4_def bit_of_def)

section \<open>The claims\<close>

text \<open>
  C1. For every well-formed graph with at most ten vertices the three solvers return the
  same value, the minimum cycle cost. On the four-vertex instance of the spec (weights
  10, 15, 20, 35, 25, 30; the optimum is 80 and the natural tour costs 95) exhaustive
  search and Held-Karp return 80, and \<open>branchAndBound\<close> returns nothing: the functions
  that build the two child nodes are empty, every node of the queue is a copy of the
  root, and the loop never ends.
\<close>

theorem solvers_disagree_on_four_vertices:
  "bruteForce example_graph_4 = Some (Inr 80)
   \<and> dynamicProgrammingHeldKarp example_graph_4 = Inr 80
   \<and> branchAndBound example_graph_4 = None"
  using bf_example_4 hk_example_4 bb_example_4 by simp

text \<open>
  C2, as amended. For every well-formed graph with at most 32 vertices,
  \<open>dynamicProgrammingHeldKarp\<close> returns the value of the recurrence of the spec,
  \<open>held_karp_answer\<close>, and this value is the least cost of a Hamiltonian cycle through
  vertex \<open>n - 1\<close>. Well-formed is: at least two vertices, off-diagonal weights that are
  not negative, and \<open>n\<close> times a weight within \<open>INT_MAX\<close> (the arithmetic precondition
  of the spec).
\<close>

theorem held_karp_returns_minimum:
  assumes "well_formed g" and "getVertexCount g \<le> 32"
  shows "dynamicProgrammingHeldKarp g = Inr (held_karp_answer g)
         \<and> held_karp_answer g = min_tour_cost g"
proof -
  have "2 \<le> getVertexCount g" using assms(1) by (simp add: well_formed_def)
  then show ?thesis
    using dynamicProgrammingHeldKarp_correct[OF assms] held_karp_answer_is_min by simp
qed

theorem held_karp_returns_minimum_witness:
  "well_formed example_graph_4 \<and> getVertexCount example_graph_4 \<le> 32
   \<and> dynamicProgrammingHeldKarp example_graph_4 = Inr (held_karp_answer example_graph_4)
   \<and> held_karp_answer example_graph_4 = min_tour_cost example_graph_4
   \<and> dynamicProgrammingHeldKarp example_graph_4 = Inr 80"
proof -
  have n: "getVertexCount example_graph_4 \<le> 32" by (simp add: example_graph_4_def)
  show ?thesis
    using held_karp_returns_minimum[OF well_formed_example_4 n] well_formed_example_4 n hk_example_4
    by simp
qed

text \<open>
  C2 as stated fails for a graph of 33 vertices: the set of the non-origin vertices does
  not fit the 32-bit word, and \<^verbatim>\<open>1u << 32\<close> has no defined value.
\<close>

theorem held_karp_fails_beyond_32:
  "well_formed example_graph_33
   \<and> dynamicProgrammingHeldKarp example_graph_33 \<noteq> Inr (min_tour_cost example_graph_33)"
  using well_formed_example_33 hk_example_33 by simp

text \<open>
  C3. For every well-formed graph with at least two vertices the loop of \<open>bruteForce\<close>
  evaluates every permutation once and returns the least cycle cost. With two vertices
  the permutation and the counters have one element, and the first pass of the
  \<^verbatim>\<open>do ... while\<close> loop reads \<^verbatim>\<open>stackCounters[1]\<close>, whatever the weights are.
\<close>

theorem bruteForce_two_vertices_out_of_range:
  "bruteForceRun \<lparr> getVertexCount = 2, getEdgeParameter = w \<rparr> = Some (Inl IndexOutOfRange)"
  by (simp add: bruteForceRun_def bruteForceLoop.simps)

text \<open>
  C4. With two vertices each solver returns \<open>w(0,1) + w(1,0)\<close>. On the graph with
  \<open>w(0,1) = 3\<close>, \<open>w(1,0) = 4\<close> and a diagonal of zeros, Held-Karp returns 7,
  \<open>bruteForce\<close> reads outside its vectors, and \<open>branchAndBound\<close> returns 0, the constant
  of \<open>bbGetCycleCost\<close>.
\<close>

theorem two_vertex_boundary_example:
  "dynamicProgrammingHeldKarp example_graph_2
     = Inr (getEdgeParameter example_graph_2 0 1 + getEdgeParameter example_graph_2 1 0)
   \<and> bruteForce example_graph_2 = Some (Inl IndexOutOfRange)
   \<and> branchAndBound example_graph_2 = Some (Inr 0)"
proof -
  have "bruteForce example_graph_2 = Some (Inl IndexOutOfRange)"
    by (simp add: bruteForce_def example_graph_2_def bf_example_2)
  then show ?thesis
    using hk_example_2 bb_example_2 by (simp add: example_graph_2_def)
qed

text \<open>
  C5. After the root construction the working matrix is the weight matrix with
  \<open>INT_MAX\<close> on the diagonal. In the source the store of the weight follows the store of
  \<open>INT_MAX\<close> for the same cell, so the matrix is the weight matrix as the graph returns
  it, diagonal included: 0 and not \<open>INT_MAX\<close> on the example.
\<close>

theorem root_matrix_diagonal_overwritten:
  "distances (initNode g) = weightMatrix g
   \<and> distances (initNode example_graph_2) ! 0 ! 0 = 0
   \<and> distances (initNode example_graph_2) ! 0 ! 0 \<noteq> INT_MAX"
proof -
  have "weightMatrix example_graph_2 ! 0 ! 0 = 0"
    by (simp add: weightMatrix_nth example_graph_2_def)
  then show ?thesis by (simp add: distances_initNode INT_MAX_def)
qed

text \<open>
  C6. For every well-formed graph the root lower bound, the sum of the row minima and of
  the column minima that the reduction subtracts, should be at most the least cost of a
  Hamiltonian cycle. The root matrix holds what the graph returns on the diagonal and
  not \<open>INT_MAX\<close> (C5), so the diagonal enters the row minima. On three vertices with
  every weight 1 and \<open>- 2 ^ 30\<close> on the diagonal, a well-formed graph (lemma
  \<open>well_formed_example_3\<close>) whose least cycle costs 3, each row minimum is \<open>- 2 ^ 30\<close>;
  their sum \<open>- 3 * 2 ^ 30\<close> is below the range of \<^verbatim>\<open>int\<close> and is \<open>2 ^ 30\<close> in 32 bits,
  every column minimum is 0, and the root bound is 1073741824, above the optimum. With
  \<open>INT_MAX\<close> on the diagonal the same weights give the root bound 3. (For a diagonal in
  the range of \<open>diagonal_in_range\<close> the bound is at most the optimum, lemma
  \<open>root_lower_bound\<close>.)
\<close>

theorem root_lower_bound_above_optimum:
  "min_tour_cost example_graph_3 = 3
   \<and> (\<exists>root. bbCalculateLowerBoundAndDesignateHighestZeroPenalty (initNode example_graph_3) = Inr root
          \<and> lowerBound root = 1073741824
          \<and> min_tour_cost example_graph_3 < lowerBound root)
   \<and> (\<exists>root. bbCalculateLowerBoundAndDesignateHighestZeroPenalty (initNode example_graph_3_inf) = Inr root
          \<and> lowerBound root = 3)"
  using min_tour_cost_example_3 bb_root_example_3 bb_root_example_3_inf by simp



text \<open>
  C8. In a run of \<open>dynamicProgrammingHeldKarp\<close> on a well-formed graph, every store of
  a computed cost finds \<open>-1\<close> in its cell and stores a value other than \<open>-1\<close>, no cell is
  stored twice, every stored value is still in the table when the run ends, the costs
  cached before the search (the singleton sets) are kept, and the value returned is the
  one the recurrence fixes for the graph, the same for every run.
\<close>

theorem held_karp_cache_written_once:
  assumes "well_formed g" and "dynamicProgrammingHeldKarpRun g = Inr (best, s)"
  shows "(\<forall>x \<in> set (writes s). fst (snd x) = - 1 \<and> snd (snd x) \<noteq> - 1
             \<and> table s (fst (fst x)) (snd (fst x)) = snd (snd x))
     \<and> distinct (map fst (writes s))
     \<and> (\<forall>v S. initialTable g v S \<noteq> - 1 \<longrightarrow> table s v S = initialTable g v S)
     \<and> best = held_karp_answer g"
proof -
  let ?n = "getVertexCount g"
  let ?full = "bit_of (?n - 1) - 1 :: 32 word"
  let ?s0 = "\<lparr> table = initialTable g, writes = [] \<rparr>"
  let ?r = "fold (hkEndVertexStep g ?full) [0..<?n - 1] (INT_MAX, ?s0)"
  have n: "?n \<le> 32" and run: "?r = (best, s)"
    using assms(2) by (auto simp: dynamicProgrammingHeldKarpRun_def Let_def split: if_splits)
  have ok0: "table_ok g (table ?s0)" by (simp add: initialTable_ok)
  have lg0: "log_ok ?s0" by (simp add: log_ok_def)
  from hk_fold_writes[OF assms(1) n ok0 lg0 le_refl, of INT_MAX]
  have lg: "log_ok s" and kept: "cache_kept ?s0 s" unfolding run by simp_all
  have "dynamicProgrammingHeldKarp g = Inr best"
    using assms(2) by (simp add: dynamicProgrammingHeldKarp_def)
  then have b: "best = held_karp_answer g"
    using dynamicProgrammingHeldKarp_correct[OF assms(1) n] by simp
  show ?thesis
    using lg kept b unfolding log_ok_def cache_kept_def by simp
qed

theorem held_karp_cache_written_once_witness:
  "well_formed example_graph_4
   \<and> (\<exists>best s. dynamicProgrammingHeldKarpRun example_graph_4 = Inr (best, s)
        \<and> list_all (\<lambda>x. fst (snd x) = - 1 \<and> snd (snd x) \<noteq> - 1
             \<and> table s (fst (fst x)) (snd (fst x)) = snd (snd x)) (writes s)
        \<and> distinct (map fst (writes s))
        \<and> length (writes s) = 9
        \<and> table s 0 (bit_of 0) = initialTable example_graph_4 0 (bit_of 0)
        \<and> best = held_karp_answer example_graph_4)"
proof -
  obtain best s where run: "dynamicProgrammingHeldKarpRun example_graph_4 = Inr (best, s)"
    by (cases "dynamicProgrammingHeldKarpRun example_graph_4")
       (auto simp: dynamicProgrammingHeldKarpRun_def example_graph_4_def Let_def)
  have len: "length (writes (snd (projr (dynamicProgrammingHeldKarpRun example_graph_4)))) = 9"
    by code_simp
  have i: "initialTable example_graph_4 0 (bit_of 0) \<noteq> - 1"
    by (simp add: initialTable_def example_graph_4_def)
  from held_karp_cache_written_once[OF well_formed_example_4 run]
  show ?thesis using well_formed_example_4 run len i by (auto simp: list_all_iff)
qed

text \<open>
  C9. The recursion of \<open>dpGetPartialPathCost\<close> terminates. The relation
  \<open>dpGetPartialPathCost_dpVertexLoop_rel\<close> holds between a call (of the function or of
  its loop) and the call that makes it; it is well-founded, so no chain of nested calls
  is infinite. Along it the vertex set never grows; a call whose end vertex is in its
  set runs its loop, and so every recursive call, on that set without the end vertex,
  which has fewer elements; every recursive call is for an end vertex of its set, and
  so is every top-level call, on the full set. For a well-formed graph the cell of a
  singleton set holds the edge from the origin in every state that keeps the initial
  cache, and a call on it returns the cell and makes no call.
\<close>

theorem dp_recursion_terminates:
  assumes "well_formed g"
  shows "wfP dpGetPartialPathCost_dpVertexLoop_rel
     \<and> (\<forall>y x. dpGetPartialPathCost_dpVertexLoop_rel y x \<longrightarrow> call_set y \<subseteq> call_set x)
     \<and> (\<forall>y S e s. dpGetPartialPathCost_dpVertexLoop_rel y (Inl (g, S, e, s)) \<longrightarrow> bit S e \<longrightarrow>
            call_set y = vset S - {e} \<and> card (call_set y) < card (vset S))
     \<and> (\<forall>g' S' v s' x. dpGetPartialPathCost_dpVertexLoop_rel (Inl (g', S', v, s')) x \<longrightarrow> bit S' v)
     \<and> (getVertexCount g \<le> 32 \<longrightarrow>
           (\<forall>e<getVertexCount g - 1. bit (bit_of (getVertexCount g - 1) - 1 :: 32 word) e))
     \<and> (\<forall>v s. v < getVertexCount g - 1 \<longrightarrow>
            cache_kept \<lparr> table = initialTable g, writes = [] \<rparr> s \<longrightarrow>
            dpGetPartialPathCost g (bit_of v) v s
              = (getEdgeParameter g (getVertexCount g - 1) v, s)
            \<and> (\<forall>y. \<not> dpGetPartialPathCost_dpVertexLoop_rel y (Inl (g, bit_of v, v, s))))"
proof -
  let ?n = "getVertexCount g"
  have n2: "2 \<le> ?n" using assms by (simp add: well_formed_def)
  have a: "call_set y = vset S - {e} \<and> card (call_set y) < card (vset S)"
    if "dpGetPartialPathCost_dpVertexLoop_rel y (Inl (g, S, e, s))" "bit S e" for y S e s
    using dp_rel_from_call[OF that(1)] card_vset_remove[OF that(2)]
    by (simp add: call_set_def vset_remove)
  have b: "bit S' v" if "dpGetPartialPathCost_dpVertexLoop_rel (Inl (g', S', v, s')) x"
    for g' S' v s' x
    using dp_rel_to_call[OF that] by blast
  have c: "bit (bit_of (?n - 1) - 1 :: 32 word) e" if "?n \<le> 32" "e < ?n - 1" for e
  proof -
    have "vset (bit_of (?n - 1) - 1) = {0..<?n - 1}" using that(1) n2 by (intro vset_fullPathSet) simp
    then show ?thesis using that(2) by (auto simp: vset_def)
  qed
  have d: "dpGetPartialPathCost g (bit_of v) v s = (getEdgeParameter g (?n - 1) v, s)
            \<and> (\<forall>y. \<not> dpGetPartialPathCost_dpVertexLoop_rel y (Inl (g, bit_of v, v, s)))"
    if "v < ?n - 1" "cache_kept \<lparr> table = initialTable g, writes = [] \<rparr> s" for v s
  proof -
    have i: "initialTable g v (bit_of v) = getEdgeParameter g (?n - 1) v"
      using that(1) by (simp add: initialTable_def)
    have "0 \<le> getEdgeParameter g (?n - 1) v"
      using assms that(1) n2 by (auto simp: well_formed_def)
    then have ne: "initialTable g v (bit_of v) \<noteq> - 1" using i by simp
    then have t: "table s v (bit_of v) = getEdgeParameter g (?n - 1) v"
      using that(2) i by (simp add: cache_kept_def)
    then have ne': "table s v (bit_of v) \<noteq> - 1" using ne i by simp
    have "dpGetPartialPathCost g (bit_of v) v s = (getEdgeParameter g (?n - 1) v, s)"
      using ne' t by (subst dpGetPartialPathCost.simps) simp
    moreover have "\<not> dpGetPartialPathCost_dpVertexLoop_rel y (Inl (g, bit_of v, v, s))" for y
      using dp_rel_from_call[of y g "bit_of v" v s] ne' by blast
    ultimately show ?thesis by blast
  qed
  have A: "\<forall>y x. dpGetPartialPathCost_dpVertexLoop_rel y x \<longrightarrow> call_set y \<subseteq> call_set x"
    using dp_rel_subset by blast
  have B: "\<forall>y S e s. dpGetPartialPathCost_dpVertexLoop_rel y (Inl (g, S, e, s)) \<longrightarrow> bit S e \<longrightarrow>
            call_set y = vset S - {e} \<and> card (call_set y) < card (vset S)"
    using a by blast
  have C: "\<forall>g' S' v s' x. dpGetPartialPathCost_dpVertexLoop_rel (Inl (g', S', v, s')) x \<longrightarrow> bit S' v"
    using b by blast
  have D: "?n \<le> 32 \<longrightarrow> (\<forall>e<?n - 1. bit (bit_of (?n - 1) - 1 :: 32 word) e)"
    using c by blast
  have E: "\<forall>v s. v < ?n - 1 \<longrightarrow>
            cache_kept \<lparr> table = initialTable g, writes = [] \<rparr> s \<longrightarrow>
            dpGetPartialPathCost g (bit_of v) v s = (getEdgeParameter g (?n - 1) v, s)
            \<and> (\<forall>y. \<not> dpGetPartialPathCost_dpVertexLoop_rel y (Inl (g, bit_of v, v, s)))"
    using d by blast
  show ?thesis
    by (rule conjI[OF wf_dp_rel conjI[OF A conjI[OF B conjI[OF C conjI[OF D E]]]]])
qed

theorem dp_recursion_terminates_witness:
  "well_formed example_graph_4
   \<and> wfP dpGetPartialPathCost_dpVertexLoop_rel
   \<and> dpGetPartialPathCost_dpVertexLoop_rel
        (Inr (example_graph_4, 7 AND NOT (bit_of 0), 0, 0, INT_MAX, example_state_4))
        (Inl (example_graph_4, 7, 0, example_state_4))
   \<and> bit (7 :: 32 word) 0
   \<and> call_set (Inr (example_graph_4, 7 AND NOT (bit_of 0), 0, 0, INT_MAX, example_state_4))
        = vset 7 - {0}
   \<and> card (call_set (Inr (example_graph_4, 7 AND NOT (bit_of 0), 0, 0, INT_MAX, example_state_4)))
        < card (vset 7)
   \<and> getVertexCount example_graph_4 \<le> 32
   \<and> bit (bit_of (getVertexCount example_graph_4 - 1) - 1 :: 32 word) 2
   \<and> 1 < getVertexCount example_graph_4 - 1
   \<and> cache_kept \<lparr> table = initialTable example_graph_4, writes = [] \<rparr> example_state_4
   \<and> dpGetPartialPathCost example_graph_4 (bit_of 1) 1 example_state_4 = (25, example_state_4)"
proof -
  have n: "getVertexCount example_graph_4 \<le> 32" "2 < getVertexCount example_graph_4 - 1"
    "1 < getVertexCount example_graph_4 - 1"
    by (simp_all add: example_graph_4_def)
  have b: "bit (7 :: 32 word) 0" by (simp add: bit_0)
  have k: "cache_kept \<lparr> table = initialTable example_graph_4, writes = [] \<rparr> example_state_4"
    by (simp add: example_state_4_def cache_kept_refl)
  have w: "getEdgeParameter example_graph_4 (getVertexCount example_graph_4 - 1) 1 = 25"
    by (simp add: example_graph_4_def)
  note T = dp_recursion_terminates[OF well_formed_example_4]
  note T1 = T[THEN conjunct1]
  note T3 = T[THEN conjunct2, THEN conjunct2, THEN conjunct1, rule_format, OF example_call_rel b]
  note T5 = T[THEN conjunct2, THEN conjunct2, THEN conjunct2, THEN conjunct2, THEN conjunct1,
              rule_format, OF n(1) n(2)]
  note T6 = T[THEN conjunct2, THEN conjunct2, THEN conjunct2, THEN conjunct2, THEN conjunct2,
              rule_format, OF n(3) k, THEN conjunct1]
  have r: "dpGetPartialPathCost example_graph_4 (bit_of 1) 1 example_state_4 = (25, example_state_4)"
    using T6 by (simp only: w)
  show ?thesis
    by (intro conjI well_formed_example_4 T1 example_call_rel b T3[THEN conjunct1]
        T3[THEN conjunct2] n(1) T5 n(3) k r)
qed

text \<open>
  C10. For every graph with at least two vertices whose reads of the root construction
  are all finite (none is \<open>INT_MAX\<close>), the list of zeros that the root reduction builds
  is not empty, and \<open>bbCalculateLowerBoundAndDesignateHighestZeroPenalty\<close> returns the
  root node: the iterator of \<^verbatim>\<open>max_element\<close> that it dereferences is not the end.
\<close>

theorem root_zero_list_nonempty:
  assumes "2 \<le> getVertexCount g"
    and "\<forall>i<getVertexCount g. \<forall>j<getVertexCount g. getEdgeParameter g i j \<noteq> INT_MAX"
  shows "snd (snd (bbReduce (initNode g))) \<noteq> []
     \<and> (\<exists>root. bbCalculateLowerBoundAndDesignateHighestZeroPenalty (initNode g) = Inr root)
     \<and> bbCalculateLowerBoundAndDesignateHighestZeroPenalty (initNode g) \<noteq> Inl EndIteratorDereferenced"
proof -
  have n: "1 \<le> getVertexCount g" using assms(1) by simp
  have fin: "\<forall>j<getVertexCount g. getEdgeParameter g 0 j \<noteq> INT_MAX" using assms by simp
  from root_zeroes_nonempty[OF n fin] root_reduction_returns[OF n fin]
  show ?thesis by auto
qed

theorem root_zero_list_nonempty_witness:
  "2 \<le> getVertexCount example_graph_4
   \<and> list_all (\<lambda>i. list_all (\<lambda>j. getEdgeParameter example_graph_4 i j \<noteq> INT_MAX)
                  [0..<getVertexCount example_graph_4]) [0..<getVertexCount example_graph_4]
   \<and> snd (snd (bbReduce (initNode example_graph_4))) \<noteq> []
   \<and> (\<exists>root. bbCalculateLowerBoundAndDesignateHighestZeroPenalty (initNode example_graph_4) = Inr root)
   \<and> bbCalculateLowerBoundAndDesignateHighestZeroPenalty (initNode example_graph_4)
        \<noteq> Inl EndIteratorDereferenced"
proof -
  have n: "2 \<le> getVertexCount example_graph_4" by (simp add: example_graph_4_def)
  have f: "\<forall>i<getVertexCount example_graph_4. \<forall>j<getVertexCount example_graph_4.
      getEdgeParameter example_graph_4 i j \<noteq> INT_MAX"
    by (auto simp: example_graph_4_def INT_MAX_def less_4_cases)
  from root_zero_list_nonempty[OF n f]
  show ?thesis using n f by (simp add: list_all_iff)
qed

end
